theory Spec2Isabelle
  imports Complex_Main "HOL-Library.Sublist" "HOL-Library.Char_ord" "HOL-Library.List_Lexorder"
begin

section \<open>Python values shared by the three scrapers\<close>

text \<open>
  A Python \<open>str\<close> is modelled as a \<open>string\<close>; a character is read as the code point
  of the same number (U+0000 to U+00FF). The substring test \<open>m in s\<close> of Python is
  \<^const>\<open>sublist\<close> \<open>m s\<close>: \<open>s\<close> is \<open>ps @ m @ ss\<close> for some \<open>ps\<close> and \<open>ss\<close>.
\<close>

datatype error =
    ValueError
  | PlaywrightTimeoutError
  | Exception

definition ord :: "char \<Rightarrow> nat" where
  "ord c = of_char c"

text \<open>
  \<open>str.isspace\<close> on one character, which is also the class \<open>\s\<close> of \<open>re\<close> on a \<open>str\<close>
  pattern and the set that \<open>str.strip()\<close> removes: tab to carriage return, the four
  separators U+001C to U+001F, the space, U+0085 and U+00A0.
\<close>

definition isspace :: "char \<Rightarrow> bool" where
  "isspace c =
     ((9 \<le> ord c \<and> ord c \<le> 13) \<or> (28 \<le> ord c \<and> ord c \<le> 32) \<or> ord c = 133 \<or> ord c = 160)"

text \<open>\<open>str.lower\<close>: A to Z, and the capital letters of U+00C0 to U+00DE (not the sign U+00D7).\<close>

definition lower_char :: "char \<Rightarrow> char" where
  "lower_char c =
     (if (65 \<le> ord c \<and> ord c \<le> 90) \<or> (192 \<le> ord c \<and> ord c \<le> 222 \<and> ord c \<noteq> 215)
      then char_of (ord c + 32) else c)"

definition lower :: "string \<Rightarrow> string" where
  "lower s = map lower_char s"

text \<open>\<open>s.strip()\<close> and \<open>s.strip(chars)\<close>: the characters removed at both ends.\<close>

definition strip_where :: "(char \<Rightarrow> bool) \<Rightarrow> string \<Rightarrow> string" where
  "strip_where P s = rev (dropWhile P (rev (dropWhile P s)))"

definition strip :: "string \<Rightarrow> string" where
  "strip s = strip_where isspace s"

definition strip_chars :: "string \<Rightarrow> string \<Rightarrow> string" where
  "strip_chars chars s = strip_where (\<lambda>c. c \<in> set chars) s"

text \<open>
  \<open>re.sub(r"[class]+", repl, s)\<close>: every maximal run of characters of the class is
  replaced by \<open>repl\<close>, from left to right.
\<close>

function sub_runs :: "(char \<Rightarrow> bool) \<Rightarrow> string \<Rightarrow> string \<Rightarrow> string" where
  "sub_runs P repl [] = []"
| "sub_runs P repl (c # cs) =
     (if P c then repl @ sub_runs P repl (dropWhile P cs) else c # sub_runs P repl cs)"
  by pat_completeness auto
termination
  by (relation "measure (\<lambda>(P, repl, s). length s)") (auto simp: less_Suc_eq_le length_dropWhile_le)

text \<open>The class \<open>[a-z0-9]\<close>.\<close>

definition is_az09 :: "char \<Rightarrow> bool" where
  "is_az09 c = ((97 \<le> ord c \<and> ord c \<le> 122) \<or> (48 \<le> ord c \<and> ord c \<le> 57))"

text \<open>\<open>str(n)\<close> for a natural number: its decimal digits.\<close>

fun str_nat :: "nat \<Rightarrow> string" where
  "str_nat n = (if n < 10 then [char_of (48 + n)] else str_nat (n div 10) @ [char_of (48 + n mod 10)])"

declare str_nat.simps [simp del]

text \<open>\<open>sep.join(parts)\<close>.\<close>

fun join :: "string \<Rightarrow> string list \<Rightarrow> string" where
  "join sep [] = []"
| "join sep [x] = x"
| "join sep (x # y # ys) = x @ sep @ join sep (y # ys)"

text \<open>
  A \<open>dict\<close> from \<open>str\<close> to \<open>str\<close> is the list of its items in the order the keys were
  inserted; \<open>d[k] = v\<close> replaces the value of a key that is there and appends a new key,
  \<open>d.get(k, default)\<close> reads it.
\<close>

type_synonym dict = "(string \<times> string) list"

fun dict_set :: "dict \<Rightarrow> string \<Rightarrow> string \<Rightarrow> dict" where
  "dict_set [] k v = [(k, v)]"
| "dict_set ((k', v') # d) k v = (if k' = k then (k, v) # d else (k', v') # dict_set d k v)"

definition dict_get :: "dict \<Rightarrow> string \<Rightarrow> string \<Rightarrow> string" where
  "dict_get d k dflt = (case map_of d k of None \<Rightarrow> dflt | Some v \<Rightarrow> v)"

definition keys :: "dict \<Rightarrow> string list" where
  "keys d = map fst d"

text \<open>
  A CSV file is the list of its rows, a row the list of its cells; a file that does not
  exist is \<open>None\<close>. \<open>csv.DictWriter(f, fieldnames)\<close> with its defaults: \<open>writerow\<close>
  raises \<open>ValueError\<close> for a dict with a key outside \<open>fieldnames\<close> and writes the empty
  string for a field the dict does not have.
\<close>

type_synonym csv_row = "string list"
type_synonym csv_file = "csv_row list option"

definition dict_to_list :: "string list \<Rightarrow> dict \<Rightarrow> error + csv_row" where
  "dict_to_list fieldnames rowdict =
     (if list_ex (\<lambda>k. k \<notin> set fieldnames) (keys rowdict) then Inl ValueError
      else Inr (map (\<lambda>key. dict_get rowdict key []) fieldnames))"

section \<open>who_scored_scraper.py\<close>

subsection \<open>Headers\<close>

text \<open>\<open>_normalize_header\<close>, statement by statement.\<close>

definition normalize_header :: "string \<Rightarrow> string" where
  "normalize_header header =
     (let normalized = lower (strip header);
          normalized = sub_runs (\<lambda>c. c \<in> set ''%/'') '' '' normalized;
          normalized = sub_runs (\<lambda>c. \<not> (is_az09 c \<or> isspace c)) '' '' normalized;
          normalized = strip_chars ''_'' (sub_runs isspace ''_'' normalized)
      in normalized)"

text \<open>
  \<open>_dedupe_headers\<close>: \<open>seen\<close> counts the occurrences so far, \<open>result\<close> is the list
  built by the \<open>append\<close> calls.
\<close>

fun dedupe_loop :: "string list \<Rightarrow> (string \<rightharpoonup> nat) \<Rightarrow> string list \<Rightarrow> string list" where
  "dedupe_loop [] seen result = result"
| "dedupe_loop (header # headers) seen result =
     (case seen header of
        None \<Rightarrow> dedupe_loop headers (seen(header \<mapsto> 1)) (result @ [header])
      | Some n \<Rightarrow>
          dedupe_loop headers (seen(header \<mapsto> n + 1)) (result @ [header @ ''_'' @ str_nat (n + 1)]))"

definition dedupe_headers :: "string list \<Rightarrow> string list" where
  "dedupe_headers headers = dedupe_loop headers Map.empty []"

subsection \<open>Challenge markers\<close>



subsection \<open>The CSV file of the collected rows\<close>

definition base_columns :: "string list" where
  "base_columns = [''source_url'', ''tab'', ''page'', ''player_name'', ''player_url'',
                   ''team_name'', ''team_url'', ''player_age'', ''player_positions'']"

text \<open>\<open>DictWriter.writerows\<close>: the rows are written one by one, up to the first that raises.\<close>

fun writerows :: "string list \<Rightarrow> dict list \<Rightarrow> csv_row list \<Rightarrow> error option \<times> csv_row list" where
  "writerows fieldnames [] f = (None, f)"
| "writerows fieldnames (rowdict # rowdicts) f =
     (case dict_to_list fieldnames rowdict of
        Inl e \<Rightarrow> (Some e, f)
      | Inr row \<Rightarrow> writerows fieldnames rowdicts (f @ [row]))"

text \<open>
  \<open>_write_csv\<close>, on the rows collected by the whole run: nothing is written without
  rows; otherwise the file is opened with mode \<open>'w'\<close>.
\<close>

definition write_csv :: "dict list \<Rightarrow> csv_file \<Rightarrow> error option \<times> csv_file" where
  "write_csv rows file =
     (if rows = [] then (None, file)
      else
        (let all_keys = set base_columns \<union> (\<Union>row \<in> set rows. set (keys row));
             extra_columns = sorted_list_of_set {key \<in> all_keys. key \<notin> set base_columns};
             cols = base_columns @ extra_columns
         in case writerows cols rows [cols] of (e, f) \<Rightarrow> (e, Some f)))"

subsection \<open>The page of a tab\<close>

text \<open>
  What the scripts of \<open>_scrape_tab\<close> and \<open>_click_next\<close> read from the page. The paging
  element of the tab has a text, of which the scripts use the two numbers of
  \<open>Page X / Y\<close> when the text matches, and may have a link \<open>a#next\<close>, which may carry the
  class \<open>disabled\<close>. The table is the first table of the container of the tab, with the
  texts of its header cells and, for every body row, the texts of its cells and the six
  fields the script reads from the first cell.
\<close>

record paging =
  page_text :: "(nat \<times> nat) option"
  next_disabled :: "bool option"

record js_row =
  row_values :: "string list"
  playerName :: string
  playerUrl :: string
  teamName :: string
  teamUrl :: string
  playerAge :: string
  playerPositions :: string

record table_data =
  td_headers :: "string list"
  td_rows :: "js_row list"

record dom =
  paging_el :: "paging option"
  table_el :: "table_data option"

text \<open>
  The site behind the page: a state \<open>'s\<close>, the page it shows, and what a click on the
  link of the tab and on the next link do to it.
\<close>

record 's site =
  dom_of :: "'s \<Rightarrow> dom"
  tab_link_count :: "'s \<Rightarrow> nat"
  click_tab_link :: "'s \<Rightarrow> 's"
  click_next_link :: "'s \<Rightarrow> 's"

record page_info =
  current :: nat
  total :: nat
  hasNext :: bool

text \<open>The first script of the loop: \<open>{ current, total, hasNext }\<close>.\<close>

definition read_page_info :: "dom \<Rightarrow> page_info" where
  "read_page_info d =
     (case paging_el d of
        None \<Rightarrow> \<lparr>current = 1, total = 1, hasNext = False\<rparr>
      | Some pg \<Rightarrow>
          (let (cur, tot) = (case page_text pg of None \<Rightarrow> (1, 1) | Some (x, y) \<Rightarrow> (x, y))
           in \<lparr>current = cur, total = tot,
               hasNext = (case next_disabled pg of None \<Rightarrow> False | Some dis \<Rightarrow> \<not> dis)\<rparr>))"

text \<open>The second script: \<open>{ headers, rows }\<close>, both empty without a container or a table.\<close>

definition read_table_data :: "dom \<Rightarrow> table_data" where
  "read_table_data d =
     (case table_el d of None \<Rightarrow> \<lparr>td_headers = [], td_rows = []\<rparr> | Some t \<Rightarrow> t)"

subsection \<open>The rows of a page\<close>

text \<open>
  \<open>for idx, header in enumerate(headers)\<close>: the header \<open>player\<close> is skipped, and a header
  beyond the cells of the row sets nothing.
\<close>

fun fill_row :: "nat \<Rightarrow> string list \<Rightarrow> string list \<Rightarrow> dict \<Rightarrow> dict" where
  "fill_row idx [] vals row_data = row_data"
| "fill_row idx (header # hdrs) vals row_data =
     fill_row (idx + 1) hdrs vals
       (if header = ''player'' then row_data
        else if idx < length vals then dict_set row_data header (vals ! idx)
        else row_data)"

definition make_row :: "string \<Rightarrow> string \<Rightarrow> nat \<Rightarrow> string list \<Rightarrow> js_row \<Rightarrow> dict" where
  "make_row url tab_name current_page hdrs row =
     fill_row 0 hdrs (row_values row)
       [(''source_url'', url), (''tab'', tab_name), (''page'', str_nat current_page),
        (''player_name'', playerName row), (''player_url'', playerUrl row),
        (''team_name'', teamName row), (''team_url'', teamUrl row),
        (''player_age'', playerAge row), (''player_positions'', playerPositions row)]"

subsection \<open>The next page\<close>

text \<open>
  \<open>_click_next\<close>. Its first script clicks the next link when the paging element has one
  that is not disabled. Then \<open>page.wait_for_function\<close> polls its script until it is true
  and raises Playwright's \<open>TimeoutError\<close> after 30 seconds: the script is true without a
  paging element, true when the text does not match, and otherwise true when the page
  number differs from \<open>current\<close>. The page is taken as it is once the click has had its
  effect, so the wait raises exactly when the script is false on that page.
\<close>

definition press_next :: "'s site \<Rightarrow> 's \<Rightarrow> 's" where
  "press_next site s =
     (case paging_el (dom_of site s) of
        None \<Rightarrow> s
      | Some pg \<Rightarrow>
          (case next_disabled pg of
             None \<Rightarrow> s
           | Some dis \<Rightarrow> if dis then s else click_next_link site s))"

definition page_changed :: "dom \<Rightarrow> nat \<Rightarrow> bool" where
  "page_changed d current_page =
     (case paging_el d of
        None \<Rightarrow> True
      | Some pg \<Rightarrow>
          (case page_text pg of
             None \<Rightarrow> True
           | Some (nextPage, y) \<Rightarrow> nextPage \<noteq> current_page))"

definition click_next :: "'s site \<Rightarrow> 's \<Rightarrow> nat \<Rightarrow> error option \<times> 's" where
  "click_next site s current_page =
     (let s1 = press_next site s
      in if page_changed (dom_of site s1) current_page then (None, s1)
         else (Some PlaywrightTimeoutError, s1))"

subsection \<open>The pages of a tab\<close>

text \<open>\<open>self.max_pages and current_page >= self.max_pages\<close>: no limit for \<open>None\<close> and for 0.\<close>

definition max_pages_reached :: "int option \<Rightarrow> nat \<Rightarrow> bool" where
  "max_pages_reached max_pages current_page =
     (case max_pages of None \<Rightarrow> False | Some m \<Rightarrow> m \<noteq> 0 \<and> m \<le> int current_page)"

text \<open>
  How \<open>_scrape_tab\<close> ends: by its \<open>return\<close> for a tab that is not there, by one of the
  three \<open>break\<close> statements of the loop, or by an exception. Each carries the state of
  the site and \<open>self.rows\<close> at that moment.
\<close>

datatype stop = TabNotFound | NoRows | MaxPages | NoNext

datatype 's tab_result =
    Stopped stop 's "dict list"
  | Raised error 's "dict list"

text \<open>
  The \<open>while True\<close> loop of \<open>_scrape_tab\<close>. It may run forever, which is the value \<open>None\<close>.
\<close>

partial_function (option) scrape_tab_loop ::
  "'s site \<Rightarrow> int option \<Rightarrow> string \<Rightarrow> string \<Rightarrow> 's \<Rightarrow> dict list \<Rightarrow> 's tab_result option" where
  "scrape_tab_loop site max_pages url tab_name s rws =
     (let page_info = read_page_info (dom_of site s);
          current_page = current page_info;
          table_data = read_table_data (dom_of site s)
      in if td_rows table_data = [] then Some (Stopped NoRows s rws)
         else
           (let hdrs = dedupe_headers (map normalize_header (td_headers table_data));
                rws1 = rws @ map (make_row url tab_name current_page hdrs) (td_rows table_data)
            in if max_pages_reached max_pages current_page then Some (Stopped MaxPages s rws1)
               else if \<not> hasNext page_info then Some (Stopped NoNext s rws1)
               else
                 (case click_next site s current_page of
                    (Some e, s1) \<Rightarrow> Some (Raised e s1 rws1)
                  | (None, s1) \<Rightarrow> scrape_tab_loop site max_pages url tab_name s1 rws1)))"

text \<open>
  \<open>_scrape_tab\<close>: the tab is selected, \<open>page.wait_for_selector\<close> waits for a table in the
  container (and raises when there is none), and the loop runs.
\<close>

definition scrape_tab ::
  "'s site \<Rightarrow> int option \<Rightarrow> string \<Rightarrow> string \<Rightarrow> 's \<Rightarrow> dict list \<Rightarrow> 's tab_result option" where
  "scrape_tab site max_pages url tab_name s rws =
     (if tab_link_count site s = 0 then Some (Stopped TabNotFound s rws)
      else
        (let s1 = click_tab_link site s
         in if table_el (dom_of site s1) = None then Some (Raised PlaywrightTimeoutError s1 rws)
            else scrape_tab_loop site max_pages url tab_name s1 rws))"

section \<open>fbref_scraper.py\<close>

text \<open>
  A column label of a DataFrame is a string, or a tuple of strings when the header has
  several levels. \<open>_flatten_headers\<close> keeps the levels that are truthy (not empty), strips
  each and joins them with one space; a label that is no tuple is stripped.
\<close>

datatype column = Flat string | Levels "string list"

definition flatten_column :: "column \<Rightarrow> string" where
  "flatten_column col =
     (case col of
        Levels cs \<Rightarrow> join '' '' (map strip (filter (\<lambda>c. c \<noteq> []) cs))
      | Flat c \<Rightarrow> strip c)"

definition flatten_headers :: "column list \<Rightarrow> string list" where
  "flatten_headers columns = map flatten_column columns"

section \<open>sofifa_scraper.py\<close>

text \<open>
  The first test of a fetched page in \<open>SoFIFAScraper.scrape_player_stats\<close> (and in
  \<open>PlayerURLScraper.scrape_all_player_urls\<close>): a chain of four \<open>in\<close> tests joined by \<open>or\<close>.
\<close>

definition sofifa_challenge_detected :: "string \<Rightarrow> bool" where
  "sofifa_challenge_detected page_content =
     (sublist ''Checking your browser'' page_content \<or> sublist ''Just a moment'' page_content
      \<or> sublist ''cf-browser-verification'' page_content
      \<or> sublist ''challenge-platform'' page_content)"

text \<open>The second test, after the wait of ten seconds: two markers only.\<close>

definition sofifa_challenge_still_present :: "string \<Rightarrow> bool" where
  "sofifa_challenge_still_present page_content =
     (sublist ''Checking your browser'' page_content \<or> sublist ''Just a moment'' page_content)"

subsection \<open>The browser and the console\<close>

text \<open>
  The Playwright page is a collaborator of the scrapers. It is a state \<open>'w\<close> with the
  operations the scrapers call on it: \<open>page.goto\<close> may raise, \<open>page.wait_for_timeout\<close>
  lets the page change, \<open>page.content\<close> reads it,
  \<open>PlayerScraper.scrape_player_data(page, url)\<close> (a module outside the sources) returns
  the stats dict of a player or raises, and the \<open>page.evaluate\<close> call of the URL scraper
  returns the player URLs of the page and whether it has a Next button, or raises.
\<close>

record 'w browser =
  goto :: "string \<Rightarrow> 'w \<Rightarrow> error option \<times> 'w"
  wait_for_timeout :: "'w \<Rightarrow> 'w"
  content :: "'w \<Rightarrow> string"
  scrape_player_data :: "string \<Rightarrow> 'w \<Rightarrow> (error + dict) \<times> 'w"
  evaluate :: "'w \<Rightarrow> (error + string list \<times> bool) \<times> 'w"

text \<open>
  The lines the scrapers print, in order: they are the record of what a run did. The
  random pauses (\<open>asyncio.sleep\<close>) change nothing but the time and are left out.
\<close>

datatype msg =
    Retry nat nat
  | Scraping nat nat string
  | ChallengeDetected
  | ChallengeStillPresent
  | Extracted string
  | NoDataExtracted
  | Error error
  | FailedAfter nat
  | ScrapingPage nat string
  | ExtractedUrls nat
  | NextButton bool
  | Saved nat

subsection \<open>The pause before a retry\<close>

text \<open>
  The pause is a Python float, an IEEE 754 double: the result of an operation is the
  exact result rounded to the nearest number with 53 significant bits, a tie going to the
  even significand. A float is read as the real number it stands for. The binade of a
  number is the exponent \<open>e\<close> with \<open>2 ^ e \<le> \<bar>x\<bar> < 2 ^ (e + 1)\<close>, and the floats of that
  binade are the multiples of \<open>2 ^ (e - 52)\<close>. The pauses are far from the overflow at
  \<open>2 ^ 1024\<close> and from the subnormal numbers below \<open>2 ^ - 1022\<close>, which are left out.
\<close>

function binade_up :: "real \<Rightarrow> int" where
  "binade_up x = (if x < 2 then 0 else binade_up (x / 2) + 1)"
  by pat_completeness auto
termination
  by (relation "measure (\<lambda>x. nat \<lfloor>x\<rfloor>)") (auto simp: nat_less_iff, linarith)

function binade_down :: "real \<Rightarrow> int" where
  "binade_down x = (if x \<le> 0 \<or> 1 \<le> x then 0 else binade_down (2 * x) - 1)"
  by pat_completeness auto
termination
proof (relation "measure (\<lambda>x. nat \<lceil>1 / x\<rceil>)")
  show "wf (measure (\<lambda>x::real. nat \<lceil>1 / x\<rceil>))"
    by simp
next
  fix x :: real
  assume "\<not> (x \<le> 0 \<or> 1 \<le> x)"
  then have x: "0 < x" "x < 1"
    by auto
  then have "1 < 1 / x"
    by simp
  then have "2 \<le> \<lceil>1 / x\<rceil>"
    by linarith
  moreover have "1 / (2 * x) \<le> of_int (\<lceil>1 / x\<rceil> - 1)"
  proof -
    define y where "y = 1 / x"
    define c :: real where "c = of_int \<lceil>y\<rceil>"
    have "y \<le> c"
      unfolding c_def by (rule le_of_int_ceiling)
    moreover have "2 \<le> c"
      using \<open>2 \<le> \<lceil>1 / x\<rceil>\<close> unfolding c_def y_def by linarith
    ultimately have "y / 2 \<le> c - 1"
      by linarith
    moreover have "1 / (2 * x) = y / 2"
      unfolding y_def by simp
    moreover have "of_int (\<lceil>1 / x\<rceil> - 1) = c - 1"
      unfolding c_def y_def by simp
    ultimately show ?thesis
      by (simp only:)
  qed
  then have "\<lceil>1 / (2 * x)\<rceil> \<le> \<lceil>1 / x\<rceil> - 1"
    by (rule iffD2 [OF ceiling_le_iff])
  ultimately have "nat \<lceil>1 / (2 * x)\<rceil> < nat \<lceil>1 / x\<rceil>"
    by linarith
  then show "(2 * x, x) \<in> measure (\<lambda>x. nat \<lceil>1 / x\<rceil>)"
    by simp
qed

declare binade_up.simps [simp del] binade_down.simps [simp del]

definition binade :: "real \<Rightarrow> int" where
  "binade x = (if 1 \<le> \<bar>x\<bar> then binade_up \<bar>x\<bar> else binade_down \<bar>x\<bar>)"

definition round_half_even :: "real \<Rightarrow> int" where
  "round_half_even x =
     (let n = \<lfloor>x\<rfloor>; r = x - of_int n
      in if r < 1 / 2 then n else if 1 / 2 < r then n + 1 else if even n then n else n + 1)"

definition ulp :: "real \<Rightarrow> real" where
  "ulp x = 2 powi (binade x - 52)"

definition round_float :: "real \<Rightarrow> real" where
  "round_float x = of_int (round_half_even (x / ulp x)) * ulp x"

text \<open>An \<open>int\<close> operand of a float operation is converted to the nearest float.\<close>

definition to_float :: "int \<Rightarrow> real" where
  "to_float m = round_float (of_int m)"

text \<open>
  \<open>random.uniform(a, b)\<close> is \<open>a + (b - a) * self.random()\<close>, called with the ints 1 and
  5: the difference is an int, the product and the sum are floats. \<open>random()\<close> is a
  sample \<open>u\<close> with \<open>0 \<le> u < 1\<close>, a multiple of \<open>2 ^ - 53\<close>.
\<close>

definition uniform :: "int \<Rightarrow> int \<Rightarrow> real \<Rightarrow> real" where
  "uniform a b u = round_float (to_float a + round_float (to_float (b - a) * u))"

text \<open>
  Both scrapers compute the pause before a retry as
  \<open>(2 ** retries) + random.uniform(1, 5)\<close>, for \<open>retries > 0\<close>: the first operand is an
  int, the sum a float.
\<close>

definition backoff_base :: "nat \<Rightarrow> int" where
  "backoff_base retries = 2 ^ retries"

definition backoff_delay :: "nat \<Rightarrow> real \<Rightarrow> real" where
  "backoff_delay retries u = round_float (to_float (backoff_base retries) + uniform 1 5 u)"

subsection \<open>The CSV file of the player stats\<close>

definition priority_cols :: "string list" where
  "priority_cols =
     [''player_id'', ''version'', ''name'', ''full_name'', ''description'', ''image'',
      ''height_cm'', ''weight_kg'', ''dob'', ''positions'', ''overall_rating'',
      ''potential'', ''value'', ''wage'', ''preferred_foot'', ''weak_foot'',
      ''skill_moves'', ''international_reputation'', ''body_type'', ''real_face'',
      ''release_clause'', ''specialities'', ''club_id'', ''club_name'', ''club_league_id'',
      ''club_league_name'', ''club_logo'', ''club_rating'', ''club_position'',
      ''club_kit_number'', ''club_joined'', ''club_contract_valid_until'', ''country_id'',
      ''country_name'', ''country_league_id'', ''country_league_name'', ''country_flag'',
      ''country_rating'', ''country_position'', ''country_kit_number'',
      ''attacking_crossing'', ''attacking_finishing'', ''attacking_heading_accuracy'',
      ''attacking_short_passing'', ''attacking_volleys'', ''skill_dribbling'',
      ''skill_curve'', ''skill_fk_accuracy'', ''skill_long_passing'',
      ''skill_ball_control'', ''movement_acceleration'', ''movement_sprint_speed'',
      ''movement_agility'', ''movement_reactions'', ''movement_balance'',
      ''power_shot_power'', ''power_jumping'', ''power_stamina'', ''power_strength'',
      ''power_long_shots'', ''mentality_aggression'', ''mentality_interceptions'',
      ''mentality_att_positioning'', ''mentality_vision'', ''mentality_penalties'',
      ''mentality_composure'', ''defending_defensive_awareness'',
      ''defending_standing_tackle'', ''defending_sliding_tackle'',
      ''goalkeeping_gk_diving'', ''goalkeeping_gk_handling'', ''goalkeeping_gk_kicking'',
      ''goalkeeping_gk_positioning'', ''goalkeeping_gk_reflexes'', ''play_styles'', ''url'']"

text \<open>\<open>_get_column_order\<close>.\<close>

definition get_column_order :: "dict \<Rightarrow> string list" where
  "get_column_order stats_dict =
     (let all_keys = set (keys stats_dict);
          other_cols = sorted_list_of_set {col \<in> all_keys. col \<notin> set priority_cols};
          cols = [col \<leftarrow> priority_cols. col \<in> all_keys] @ other_cols
      in cols)"

text \<open>
  The scraper object, with the content of the file at \<open>self.output_file\<close> as its last
  field.
\<close>

record sofifa_scraper =
  player_urls :: "string list"
  player_stats :: "dict list"
  columns :: "string list option"
  csv_initialized :: bool
  output_file :: csv_file

text \<open>The object \<open>__init__\<close> builds, with the file as the run finds it.\<close>

definition init_scraper :: "csv_file \<Rightarrow> sofifa_scraper" where
  "init_scraper file =
     \<lparr>player_urls = [], player_stats = [], columns = None, csv_initialized = False,
      output_file = file\<rparr>"

text \<open>
  \<open>save_player_to_csv\<close>. Mode \<open>'w'\<close> opens an empty file, mode \<open>'a'\<close> opens the file as
  it is and creates it when it is not there. The header and the row are written in this
  order, so the header is in the file when \<open>writerow\<close> raises.
\<close>

definition save_player_to_csv :: "dict \<Rightarrow> sofifa_scraper \<Rightarrow> (error + unit) \<times> sofifa_scraper" where
  "save_player_to_csv stats self =
     (let file_exists = (output_file self \<noteq> None \<and> csv_initialized self);
          fieldnames = (case columns self of None \<Rightarrow> get_column_order stats | Some cols \<Rightarrow> cols);
          self1 = self\<lparr>columns := Some fieldnames\<rparr>;
          opened = (if \<not> csv_initialized self1 then []
                    else (case output_file self1 of None \<Rightarrow> [] | Some rows \<Rightarrow> rows));
          self2 = self1\<lparr>csv_initialized := True\<rparr>;
          f = (if \<not> file_exists then opened @ [fieldnames] else opened)
      in case dict_to_list fieldnames stats of
           Inl e \<Rightarrow> (Inl e, self2\<lparr>output_file := Some f\<rparr>)
         | Inr row \<Rightarrow> (Inr (), self2\<lparr>output_file := Some (f @ [row])\<rparr>))"

subsection \<open>The retry loop of a player URL\<close>

definition max_retries :: nat where
  "max_retries = 5"

type_synonym 'w sofifa_state = "sofifa_scraper \<times> 'w \<times> msg list"

text \<open>
  The end of the \<open>try\<close> block: the stats are extracted and, when they have a name,
  kept and saved. The result says whether \<open>success\<close> was set.
\<close>

definition extract_player :: "'w browser \<Rightarrow> string \<Rightarrow> 'w sofifa_state \<Rightarrow> bool \<times> 'w sofifa_state" where
  "extract_player br url st =
     (case st of (self, w, out) \<Rightarrow>
        (case scrape_player_data br url w of
           (Inl e, w1) \<Rightarrow> (False, self, w1, out @ [Error e])
         | (Inr stats, w1) \<Rightarrow>
             if dict_get stats ''name'' [] \<noteq> [] then
               (let self1 = self\<lparr>player_stats := player_stats self @ [stats]\<rparr>;
                    out1 = out @ [Extracted (dict_get stats ''name'' ''Unknown'')]
                in case save_player_to_csv stats self1 of
                     (Inl e, self2) \<Rightarrow> (False, self2, w1, out1 @ [Error e])
                   | (Inr u, self2) \<Rightarrow> (True, self2, w1, out1))
             else (False, self, w1, out @ [NoDataExtracted])))"

text \<open>
  One pass through the body of \<open>while retries < max_retries and not success\<close>. Every
  path that does not set \<open>success\<close> adds one to \<open>retries\<close>: the challenge that is still
  there, the stats without a name, and the \<open>except\<close> clause.
\<close>

definition attempt ::
  "'w browser \<Rightarrow> nat \<Rightarrow> nat \<Rightarrow> string \<Rightarrow> nat \<Rightarrow> 'w sofifa_state \<Rightarrow> bool \<times> 'w sofifa_state" where
  "attempt br idx total_urls url retries st =
     (case st of (self, w, out) \<Rightarrow>
        (let out1 = (if retries > 0 then out @ [Retry retries max_retries] else out);
             out2 = out1 @ [Scraping idx total_urls url]
         in case goto br url w of
              (Some e, w1) \<Rightarrow> (False, self, w1, out2 @ [Error e])
            | (None, w1) \<Rightarrow>
                (let w2 = wait_for_timeout br w1;
                     page_content = content br w2
                 in if sofifa_challenge_detected page_content then
                      (let w3 = wait_for_timeout br w2;
                           page_content = content br w3
                       in if sofifa_challenge_still_present page_content
                          then (False, self, w3, out2 @ [ChallengeDetected, ChallengeStillPresent])
                          else extract_player br url (self, w3, out2 @ [ChallengeDetected]))
                    else extract_player br url (self, w2, out2))))"

function player_loop ::
  "'w browser \<Rightarrow> nat \<Rightarrow> nat \<Rightarrow> string \<Rightarrow> nat \<Rightarrow> 'w sofifa_state \<Rightarrow> bool \<times> 'w sofifa_state" where
  "player_loop br idx total_urls url retries st =
     (if retries < max_retries then
        (case attempt br idx total_urls url retries st of
           (True, st1) \<Rightarrow> (True, st1)
         | (False, st1) \<Rightarrow> player_loop br idx total_urls url (retries + 1) st1)
      else (False, st))"
  by pat_completeness auto
termination
  by (relation "measure (\<lambda>(br, idx, total_urls, url, retries, st). max_retries - retries)") auto

declare player_loop.simps [simp del]

text \<open>The \<open>for idx, url in enumerate(urls_to_scrape, 1)\<close> loop.\<close>

fun scrape_urls :: "'w browser \<Rightarrow> nat \<Rightarrow> nat \<Rightarrow> string list \<Rightarrow> 'w sofifa_state \<Rightarrow> 'w sofifa_state" where
  "scrape_urls br idx total_urls [] st = st"
| "scrape_urls br idx total_urls (url # urls) st =
     (case player_loop br idx total_urls url 0 st of
        (success, self, w, out) \<Rightarrow>
          scrape_urls br (idx + 1) total_urls urls
            (self, w, if success then out else out @ [FailedAfter max_retries]))"

text \<open>\<open>xs[:n]\<close>.\<close>

definition slice_to :: "'a list \<Rightarrow> int \<Rightarrow> 'a list" where
  "slice_to xs n = (if 0 \<le> n then take (nat n) xs else take (nat (int (length xs) + n)) xs)"

definition scrape_player_stats ::
  "'w browser \<Rightarrow> int option \<Rightarrow> sofifa_scraper \<Rightarrow> 'w \<Rightarrow> 'w sofifa_state" where
  "scrape_player_stats br max_players self w =
     (let urls_to_scrape =
            (case max_players of
               None \<Rightarrow> player_urls self
             | Some n \<Rightarrow> if n \<noteq> 0 then slice_to (player_urls self) n else player_urls self)
      in scrape_urls br 1 (length urls_to_scrape) urls_to_scrape (self, w, []))"

section \<open>scrape_player_urls.py\<close>

text \<open>
  The loop of \<open>save_urls_to_csv\<close> that removes duplicates: \<open>seen\<close> is the set of the
  URLs met so far, \<open>unique_urls\<close> the URLs kept, in the order they were appended.
\<close>

fun unique_loop :: "string list \<Rightarrow> string set \<Rightarrow> string list \<Rightarrow> string list" where
  "unique_loop [] seen unique_urls = unique_urls"
| "unique_loop (url # urls) seen unique_urls =
     (if url \<notin> seen then unique_loop urls (insert url seen) (unique_urls @ [url])
      else unique_loop urls seen unique_urls)"

definition unique_urls_of :: "string list \<Rightarrow> string list" where
  "unique_urls_of all_player_urls = unique_loop all_player_urls {} []"

text \<open>
  \<open>save_urls_to_csv\<close> opens the file with mode \<open>'w'\<close>: whatever the file held is replaced
  by the header row and one row for each unique URL.
\<close>

definition save_urls_to_csv :: "string list \<Rightarrow> csv_file \<Rightarrow> csv_file" where
  "save_urls_to_csv all_player_urls file =
     Some ([''player_url''] # map (\<lambda>url. [url]) (unique_urls_of all_player_urls))"

subsection \<open>The pages of the player list\<close>

text \<open>
  The scraper object, with the content of \<open>player_urls.csv\<close> as its last field.
\<close>

record url_scraper =
  base_url :: string
  all_player_urls :: "string list"
  offset :: nat
  page_size :: nat
  urls_file :: csv_file

definition url_max_retries :: nat where
  "url_max_retries = 3"

type_synonym 'w url_state = "url_scraper \<times> 'w \<times> msg list"

text \<open>
  The \<open>except\<close> clause: one more retry is counted and, when that was the last one,
  \<open>has_next\<close> is set to \<open>False\<close> (the comment of the code: stop pagination on failure).
  The results of the passes are \<open>success\<close>, \<open>has_next\<close> and \<open>page_num\<close>.
\<close>

definition page_except ::
  "error \<Rightarrow> nat \<Rightarrow> bool \<Rightarrow> nat \<Rightarrow> 'w url_state \<Rightarrow> bool \<times> bool \<times> nat \<times> 'w url_state" where
  "page_except e retries has_next page_num st =
     (case st of (self, w, out) \<Rightarrow>
        if retries + 1 \<ge> url_max_retries
        then (False, False, page_num, self, w, out @ [Error e, FailedAfter url_max_retries])
        else (False, has_next, page_num, self, w, out @ [Error e]))"

text \<open>
  The end of the \<open>try\<close> block: the URLs of the page are read, kept and saved, and a page
  with a Next button moves the offset on.
\<close>

definition extract_urls ::
  "'w browser \<Rightarrow> nat \<Rightarrow> bool \<Rightarrow> nat \<Rightarrow> 'w url_state \<Rightarrow> bool \<times> bool \<times> nat \<times> 'w url_state" where
  "extract_urls br retries has_next page_num st =
     (case st of (self, w, out) \<Rightarrow>
        (case evaluate br w of
           (Inl e, w1) \<Rightarrow> page_except e retries has_next page_num (self, w1, out)
         | (Inr (urls, next_button), w1) \<Rightarrow>
             (let out1 = out @ [ExtractedUrls (length urls), NextButton next_button];
                  self1 = self\<lparr>all_player_urls := all_player_urls self @ urls\<rparr>;
                  self2 = self1\<lparr>urls_file := save_urls_to_csv (all_player_urls self1) (urls_file self1)\<rparr>;
                  out2 = out1 @ [Saved (length (unique_urls_of (all_player_urls self1)))]
              in if next_button
                 then (True, True, page_num + 1, self2\<lparr>offset := offset self2 + page_size self2\<rparr>, w1, out2)
                 else (True, False, page_num, self2, w1, out2))))"

text \<open>
  One pass through the body of \<open>while retries < max_retries and not success\<close>. The
  challenge that is still there counts a retry and leaves \<open>has_next\<close> as it is.
\<close>

definition page_attempt ::
  "'w browser \<Rightarrow> string \<Rightarrow> nat \<Rightarrow> nat \<Rightarrow> bool \<Rightarrow> 'w url_state \<Rightarrow> bool \<times> bool \<times> nat \<times> 'w url_state" where
  "page_attempt br url page_num retries has_next st =
     (case st of (self, w, out) \<Rightarrow>
        (let out1 = (if retries > 0 then out @ [Retry retries url_max_retries] else out);
             out2 = out1 @ [ScrapingPage page_num url]
         in case goto br url w of
              (Some e, w1) \<Rightarrow> page_except e retries has_next page_num (self, w1, out2)
            | (None, w1) \<Rightarrow>
                (let w2 = wait_for_timeout br w1;
                     page_content = content br w2
                 in if sofifa_challenge_detected page_content then
                      (let w3 = wait_for_timeout br w2;
                           page_content = content br w3
                       in if sofifa_challenge_still_present page_content
                          then (False, has_next, page_num, self, w3,
                                out2 @ [ChallengeDetected, ChallengeStillPresent])
                          else extract_urls br retries has_next page_num
                                 (self, w3, out2 @ [ChallengeDetected]))
                    else extract_urls br retries has_next page_num (self, w2, out2))))"

function page_loop ::
  "'w browser \<Rightarrow> string \<Rightarrow> nat \<Rightarrow> nat \<Rightarrow> bool \<Rightarrow> 'w url_state \<Rightarrow> bool \<times> nat \<times> 'w url_state" where
  "page_loop br url page_num retries has_next st =
     (if retries < url_max_retries then
        (case page_attempt br url page_num retries has_next st of
           (True, has_next1, page_num1, st1) \<Rightarrow> (has_next1, page_num1, st1)
         | (False, has_next1, page_num1, st1) \<Rightarrow>
             page_loop br url page_num1 (retries + 1) has_next1 st1)
      else (has_next, page_num, st))"
  by pat_completeness auto
termination
  by (relation "measure (\<lambda>(br, url, page_num, retries, has_next, st). url_max_retries - retries)") auto

declare page_loop.simps [simp del]

text \<open>The URL of the page at the offset of the scraper.\<close>

definition page_url :: "url_scraper \<Rightarrow> string" where
  "page_url self =
     (if offset self > 0 then base_url self @ ''&offset='' @ str_nat (offset self)
      else base_url self)"

text \<open>The \<open>while has_next\<close> loop. It may run forever, which is the value \<open>None\<close>.\<close>

partial_function (option) pages_loop ::
  "'w browser \<Rightarrow> nat \<Rightarrow> bool \<Rightarrow> 'w url_state \<Rightarrow> 'w url_state option" where
  "pages_loop br page_num has_next st =
     (if has_next then
        (case page_loop br (page_url (fst st)) page_num 0 has_next st of
           (has_next1, page_num1, st1) \<Rightarrow> pages_loop br page_num1 has_next1 st1)
      else Some st)"

definition scrape_all_player_urls :: "'w browser \<Rightarrow> url_scraper \<Rightarrow> 'w \<Rightarrow> 'w url_state option" where
  "scrape_all_player_urls br self w = pages_loop br 1 True (self, w, [])"

section \<open>Notions used in the statements\<close>

text \<open>The index of the first occurrence of a value in a list (its length when absent).\<close>

fun first_index :: "'a list \<Rightarrow> 'a \<Rightarrow> nat" where
  "first_index [] x = 0"
| "first_index (y # ys) x = (if x = y then 0 else Suc (first_index ys x))"

text \<open>No two neighbours of a list satisfy \<open>P\<close>.\<close>

fun isolated :: "('a \<Rightarrow> bool) \<Rightarrow> 'a list \<Rightarrow> bool" where
  "isolated P [] = True"
| "isolated P [c] = True"
| "isolated P (c # d # cs) = (\<not> (P c \<and> P d) \<and> isolated P (d # cs))"

text \<open>
  The shape of a normalised header: characters of \<open>[a-z0-9_]\<close>, no two underscores in
  a row, no underscore at either end.
\<close>

definition nf :: "string \<Rightarrow> bool" where
  "nf s \<longleftrightarrow> (\<forall>c \<in> set s. is_az09 c \<or> c = CHR ''_'')
     \<and> isolated (\<lambda>c. c = CHR ''_'') s
     \<and> (s = [] \<or> (hd s \<noteq> CHR ''_'' \<and> last s \<noteq> CHR ''_''))"

text \<open>
  The number of the occurrence of the header at index \<open>i\<close> among the headers up to and
  including \<open>i\<close>, and the name \<open>_dedupe_headers\<close> gives it.
\<close>

definition occurrence :: "string list \<Rightarrow> nat \<Rightarrow> nat" where
  "occurrence headers i = count_list (take (Suc i) headers) (headers ! i)"

definition deduped_name :: "string list \<Rightarrow> nat \<Rightarrow> string" where
  "deduped_name headers i =
     (if occurrence headers i = 1 then headers ! i
      else headers ! i @ ''_'' @ str_nat (occurrence headers i))"

text \<open>
  The columns \<open>_write_csv\<close> computes: the nine base columns, then every other key of
  any row, in ascending order.
\<close>

definition all_columns :: "dict list \<Rightarrow> string list" where
  "all_columns rows =
     base_columns @ sort (remdups [key \<leftarrow> concat (map keys rows). key \<notin> set base_columns])"

text \<open>
  The rows \<open>_scrape_tab\<close> appends for the page the site shows in state \<open>s\<close>, and the
  condition under which the loop goes on to the next page: the page has rows, the limit
  of pages is not reached, the page says it has a next page, and after the click the
  wait of \<open>_click_next\<close> does not raise.
\<close>

definition page_rows :: "'s site \<Rightarrow> string \<Rightarrow> string \<Rightarrow> 's \<Rightarrow> dict list" where
  "page_rows site url tab_name s =
     (let table_data = read_table_data (dom_of site s)
      in map (make_row url tab_name (current (read_page_info (dom_of site s)))
                (dedupe_headers (map normalize_header (td_headers table_data))))
           (td_rows table_data))"

definition continues :: "'s site \<Rightarrow> int option \<Rightarrow> 's \<Rightarrow> bool" where
  "continues site max_pages s \<longleftrightarrow>
     td_rows (read_table_data (dom_of site s)) \<noteq> []
     \<and> \<not> max_pages_reached max_pages (current (read_page_info (dom_of site s)))
     \<and> hasNext (read_page_info (dom_of site s))
     \<and> page_changed (dom_of site (click_next_link site s)) (current (read_page_info (dom_of site s)))"

text \<open>
  Two sites for the examples. The first shows page \<open>n + 1\<close> of 10 in state \<open>n\<close>, always
  with an enabled next link, and its fourth page has no rows. On the second the next
  link does nothing: the text stays \<open>Page 2 / 5\<close>.
\<close>

definition one_row :: js_row where
  "one_row = \<lparr>row_values = [''Messi'', ''7''], playerName = ''Messi'', playerUrl = [],
     teamName = [], teamUrl = [], playerAge = ''37'', playerPositions = []\<rparr>"

definition four_pages :: "nat site" where
  "four_pages =
     \<lparr>dom_of = (\<lambda>n. \<lparr>paging_el = Some \<lparr>page_text = Some (n + 1, 10), next_disabled = Some False\<rparr>,
                     table_el = Some \<lparr>td_headers = [''Player'', ''Goals''],
                                      td_rows = (if n < 3 then [one_row] else [])\<rparr>\<rparr>),
      tab_link_count = (\<lambda>n. 1), click_tab_link = (\<lambda>n. n), click_next_link = Suc\<rparr>"

definition stalled :: "unit site" where
  "stalled =
     \<lparr>dom_of = (\<lambda>s. \<lparr>paging_el = Some \<lparr>page_text = Some (2, 5), next_disabled = Some False\<rparr>,
                     table_el = Some \<lparr>td_headers = [''Player'', ''Goals''], td_rows = [one_row]\<rparr>\<rparr>),
      tab_link_count = (\<lambda>s. 1), click_tab_link = (\<lambda>s. s), click_next_link = (\<lambda>s. s)\<rparr>"

text \<open>
  A third site, whose paging text never matches \<open>Page X / Y\<close>: every page has a row and
  an enabled next link, and the state counts the clicks on it.
\<close>

definition unparsed :: "nat site" where
  "unparsed =
     \<lparr>dom_of = (\<lambda>n. \<lparr>paging_el = Some \<lparr>page_text = None, next_disabled = Some False\<rparr>,
                     table_el = Some \<lparr>td_headers = [''Player'', ''Goals''], td_rows = [one_row]\<rparr>\<rparr>),
      tab_link_count = (\<lambda>n. 1), click_tab_link = (\<lambda>n. n), click_next_link = Suc\<rparr>"

text \<open>
  The attempts a console shows: every pass of a retry loop prints one line
  \<open>Scraping player\<close> (or \<open>Scraping\<close> with the page), just before \<open>page.goto\<close>.
\<close>

fun is_attempt :: "msg \<Rightarrow> bool" where
  "is_attempt (Scraping idx n url) = True"
| "is_attempt (ScrapingPage page_num url) = True"
| "is_attempt m = False"

definition attempts :: "msg list \<Rightarrow> nat" where
  "attempts out = length (filter is_attempt out)"

text \<open>
  Two browsers for the examples. On the first every \<open>page.goto\<close> raises. On the
  second, the list of the players has three pages: the page at offset 60 raises at
  every \<open>page.goto\<close>, the pages at offsets 0 and 120 load, and the state of the browser
  is the URL it shows.
\<close>

definition down :: "unit browser" where
  "down =
     \<lparr>goto = (\<lambda>url w. (Some Exception, w)), wait_for_timeout = (\<lambda>w. w), content = (\<lambda>w. []),
      scrape_player_data = (\<lambda>url w. (Inl Exception, w)),
      evaluate = (\<lambda>w. (Inl Exception, w))\<rparr>"

definition flaky_list :: "string browser" where
  "flaky_list =
     \<lparr>goto = (\<lambda>url w. if url = ''u&offset=60'' then (Some Exception, w) else (None, url)),
      wait_for_timeout = (\<lambda>w. w), content = (\<lambda>w. []),
      scrape_player_data = (\<lambda>url w. (Inl Exception, w)),
      evaluate = (\<lambda>w. if w = ''u'' then (Inr ([''/player/1''], True), w)
                        else if w = ''u&offset=120'' then (Inr ([''/player/3''], False), w)
                        else (Inr ([], False), w))\<rparr>"

definition list_scraper :: url_scraper where
  "list_scraper =
     \<lparr>base_url = ''u'', all_player_urls = [], offset = 0, page_size = 60, urls_file = None\<rparr>"

section \<open>Lemmas\<close>

subsection \<open>The loop that removes duplicate URLs\<close>

lemma unique_loop_acc: "unique_loop xs seen acc = acc @ unique_loop xs seen []"
proof (induction xs arbitrary: seen acc)
  case Nil show ?case by simp
next
  case (Cons x xs)
  show ?case using Cons.IH [of "insert x seen" "acc @ [x]"] Cons.IH [of "insert x seen" "[x]"] Cons.IH [of seen acc]
    by simp
qed

lemma unique_loop_set: "set (unique_loop xs seen []) = set xs - seen"
proof (induction xs arbitrary: seen)
  case Nil show ?case by simp
next
  case (Cons x xs)
  show ?case using Cons.IH [of "insert x seen"] Cons.IH [of seen] unique_loop_acc [of xs "insert x seen" "[x]"]
    by auto
qed

lemma unique_loop_distinct: "distinct (unique_loop xs seen [])"
proof (induction xs arbitrary: seen)
  case Nil show ?case by simp
next
  case (Cons x xs)
  show ?case using Cons.IH [of "insert x seen"] Cons.IH [of seen] unique_loop_acc [of xs "insert x seen" "[x]"]
    by (simp add: unique_loop_set)
qed

lemma first_index_Cons_neq: "v \<noteq> x \<Longrightarrow> first_index (x # xs) v = Suc (first_index xs v)"
  by simp

lemma sorted_wrt_first_index_Cons:
  assumes "sorted_wrt (\<lambda>u v. first_index xs u < first_index xs v) us" "x \<notin> set us"
  shows "sorted_wrt (\<lambda>u v. first_index (x # xs) u < first_index (x # xs) v) us"
  using assms by (induction us) auto

lemma unique_loop_order:
  "sorted_wrt (\<lambda>u v. first_index xs u < first_index xs v) (unique_loop xs seen [])"
proof (induction xs arbitrary: seen)
  case Nil show ?case by simp
next
  case (Cons x xs)
  show ?case
  proof (cases "x \<in> seen")
    case True
    have "x \<notin> set (unique_loop xs seen [])" using True by (simp add: unique_loop_set)
    then have "sorted_wrt (\<lambda>u v. first_index (x # xs) u < first_index (x # xs) v) (unique_loop xs seen [])"
      using Cons.IH [of seen] by (intro sorted_wrt_first_index_Cons)
    moreover have "unique_loop (x # xs) seen [] = unique_loop xs seen []" using True by simp
    ultimately show ?thesis by (simp only:)
  next
    case False
    have nx: "x \<notin> set (unique_loop xs (insert x seen) [])" by (simp add: unique_loop_set)
    have "sorted_wrt (\<lambda>u v. first_index (x # xs) u < first_index (x # xs) v) (unique_loop xs (insert x seen) [])"
      using Cons.IH [of "insert x seen"] nx by (rule sorted_wrt_first_index_Cons)
    moreover have "\<forall>v \<in> set (unique_loop xs (insert x seen) []). first_index (x # xs) x < first_index (x # xs) v"
      using nx by auto
    moreover have "unique_loop (x # xs) seen [] = x # unique_loop xs (insert x seen) []"
      using False unique_loop_acc [of xs "insert x seen" "[x]"] by simp
    ultimately show ?thesis by (simp only: sorted_wrt.simps simp_thms)
  qed
qed

subsection \<open>Challenge markers\<close>


subsection \<open>Header normalisation\<close>

lemma sub_runs_none: "\<forall>c \<in> set s. \<not> P c \<Longrightarrow> sub_runs P repl s = s"
  by (induction s) auto

lemma isolated_Cons: "isolated P (c # cs) \<longleftrightarrow> (cs = [] \<or> \<not> (P c \<and> P (hd cs))) \<and> isolated P cs"
  by (cases cs) auto

lemma isolated_cong: "\<forall>c \<in> set s. P c = Q c \<Longrightarrow> isolated P s = isolated Q s"
  by (induction P s rule: isolated.induct) auto

lemma isolated_map: "isolated P (map f s) = isolated (\<lambda>c. P (f c)) s"
  by (induction "\<lambda>c. P (f c)" s rule: isolated.induct) auto

lemma isolated_append: "isolated P (xs @ ys) \<Longrightarrow> isolated P xs \<and> isolated P ys"
proof (induction P xs rule: isolated.induct)
  case (1 P) then show ?case by simp
next
  case (2 P c) then show ?case by (cases ys) auto
next
  case (3 P c d cs) then show ?case by auto
qed

lemma sub_runs_isolated:
  "isolated P s \<Longrightarrow> sub_runs P [r] s = map (\<lambda>c. if P c then r else c) s"
proof (induction P s rule: isolated.induct)
  case (1 P) show ?case by simp
next
  case (2 P c) show ?case by simp
next
  case (3 P c d cs)
  then show ?case by auto
qed

lemma hd_sub_runs: "s \<noteq> [] \<Longrightarrow> \<not> P (hd s) \<Longrightarrow> sub_runs P repl s \<noteq> [] \<and> hd (sub_runs P repl s) = hd s"
  by (cases s) auto

lemma dropWhile_hd: "dropWhile P s \<noteq> [] \<Longrightarrow> \<not> P (hd (dropWhile P s))"
  by (simp add: hd_dropWhile)

lemma set_sub_runs: "set (sub_runs P repl s) \<subseteq> set repl \<union> {c \<in> set s. \<not> P c}"
proof (induction P repl s rule: sub_runs.induct)
  case (1 P repl) show ?case by simp
next
  case (2 P repl c cs)
  have "set (dropWhile P cs) \<subseteq> set cs" by (meson set_dropWhileD subsetI)
  with 2 show ?case by auto
qed


lemma sub_runs_isolated_out:
  "\<forall>c \<in> set s. c \<noteq> r \<Longrightarrow> isolated (\<lambda>c. c = r) (sub_runs P [r] s)"
proof (induction P "[r]" s rule: sub_runs.induct)
  case (1 P) show ?case by simp
next
  case (2 P c cs)
  show ?case
  proof (cases "P c")
    case True
    let ?d = "dropWhile P cs"
    have sub: "set ?d \<subseteq> set cs" by (meson set_dropWhileD subsetI)
    then have ih: "isolated (\<lambda>c. c = r) (sub_runs P [r] ?d)"
      using 2 True by auto
    have "sub_runs P [r] ?d = [] \<or> hd (sub_runs P [r] ?d) \<noteq> r"
    proof (cases "?d = []")
      case True
      then have "sub_runs P [r] ?d = []" by (simp only: sub_runs.simps)
      then show ?thesis by blast
    next
      case False
      then have "\<not> P (hd ?d)" by (rule dropWhile_hd)
      then have "hd (sub_runs P [r] ?d) = hd ?d" using False hd_sub_runs by blast
      moreover have "hd ?d \<in> set cs" using False sub by (meson hd_in_set subsetD)
      ultimately show ?thesis using "2.prems" by auto
    qed
    then show ?thesis using True ih by (auto simp: isolated_Cons)
  next
    case False
    then show ?thesis using 2 by (auto simp: isolated_Cons)
  qed
qed

lemma dropWhile_id_hd: "xs \<noteq> [] \<Longrightarrow> \<not> P (hd xs) \<Longrightarrow> dropWhile P xs = xs"
  by (cases xs) auto

lemma strip_where_infix: "\<exists>ps ss. s = ps @ strip_where P s @ ss"
proof -
  have "s = takeWhile P s @ dropWhile P s" by simp
  moreover have "dropWhile P s = rev (dropWhile P (rev (dropWhile P s))) @ rev (takeWhile P (rev (dropWhile P s)))"
    by (metis rev_append rev_rev_ident takeWhile_dropWhile_id)
  ultimately show ?thesis unfolding strip_where_def by metis
qed

lemma strip_where_ends:
  "strip_where P s = [] \<or> (\<not> P (hd (strip_where P s)) \<and> \<not> P (last (strip_where P s)))"
proof (cases "strip_where P s = []")
  case True then show ?thesis by simp
next
  case False
  let ?d = "dropWhile P s"
  let ?e = "dropWhile P (rev ?d)"
  have e: "?e \<noteq> []" using False by (simp add: strip_where_def)
  then have "\<not> P (hd ?e)" by (rule dropWhile_hd)
  then have l: "\<not> P (last (strip_where P s))" using e by (simp add: strip_where_def last_rev)
  have d: "?d \<noteq> []"
  proof
    assume "?d = []"
    then have "?e = []" by (simp only: rev.simps dropWhile.simps)
    with e show False by blast
  qed
  then have nd: "\<not> P (hd ?d)" by (rule dropWhile_hd)
  have "rev ?d = takeWhile P (rev ?d) @ ?e" by simp
  then have "?d = rev ?e @ rev (takeWhile P (rev ?d))" by (metis rev_append rev_rev_ident)
  then have "hd ?d = hd (rev ?e)" using e by (metis hd_append2 rev_is_Nil_conv)
  then show ?thesis using l nd by (simp add: strip_where_def)
qed

lemma strip_where_id: "s = [] \<or> (\<not> P (hd s) \<and> \<not> P (last s)) \<Longrightarrow> strip_where P s = s"
proof (cases s)
  case Nil then show ?thesis by (simp add: strip_where_def)
next
  case (Cons c cs)
  assume "s = [] \<or> (\<not> P (hd s) \<and> \<not> P (last s))"
  then have h: "\<not> P c" "\<not> P (last s)" using Cons by auto
  then have "dropWhile P s = s" using Cons by simp
  moreover have "dropWhile P (rev s) = rev s"
  proof (rule dropWhile_id_hd)
    show "rev s \<noteq> []" using Cons by simp
    have "hd (rev s) = last s" using Cons by (metis hd_rev list.distinct(1))
    then show "\<not> P (hd (rev s))" using h by simp
  qed
  ultimately show ?thesis by (simp add: strip_where_def)
qed

lemma az09_facts:
  "is_az09 c \<Longrightarrow> \<not> isspace c \<and> lower_char c = c \<and> c \<noteq> CHR ''_'' \<and> c \<noteq> CHR ''%'' \<and> c \<noteq> CHR ''/''"
  by (auto simp: is_az09_def isspace_def lower_char_def ord_def)

lemma underscore_facts:
  "\<not> isspace (CHR ''_'') \<and> lower_char (CHR ''_'') = CHR ''_'' \<and> \<not> is_az09 (CHR ''_'') \<and> isspace (CHR '' '')
   \<and> \<not> is_az09 (CHR '' '')"
  by (simp add: is_az09_def isspace_def lower_char_def ord_def)


lemma nf_fixed:
  assumes "nf s"
  shows "normalize_header s = s"
proof -
  have chars: "\<forall>c \<in> set s. is_az09 c \<or> c = CHR ''_''"
    and iso: "isolated (\<lambda>c. c = CHR ''_'') s"
    and ends: "s = [] \<or> (hd s \<noteq> CHR ''_'' \<and> last s \<noteq> CHR ''_'')"
    using assms by (simp_all add: nf_def)
  have nosp: "\<forall>c \<in> set s. \<not> isspace c"
    using chars az09_facts underscore_facts by blast
  have s1: "strip s = s"
    unfolding strip_def
  proof (rule strip_where_id)
    show "s = [] \<or> (\<not> isspace (hd s) \<and> \<not> isspace (last s))"
      using nosp by (cases "s = []") simp_all
  qed
  have s2: "lower s = s"
    unfolding lower_def using chars az09_facts underscore_facts by (intro map_idI) metis
  have s3: "sub_runs (\<lambda>c. c \<in> set ''%/'') '' '' s = s"
    using chars az09_facts by (intro sub_runs_none) auto
  let ?P3 = "\<lambda>c. \<not> (is_az09 c \<or> isspace c)"
  let ?m = "map (\<lambda>c. if ?P3 c then CHR '' '' else c) s"
  have p3: "\<forall>c \<in> set s. ?P3 c = (c = CHR ''_'')"
    using chars az09_facts underscore_facts by blast
  then have "isolated ?P3 s = isolated (\<lambda>c. c = CHR ''_'') s"
    by (rule isolated_cong)
  then have "isolated ?P3 s"
    using iso by (simp only:)
  then have s4: "sub_runs ?P3 '' '' s = ?m"
    by (rule sub_runs_isolated)
  have p4: "\<forall>c \<in> set s. isspace (if ?P3 c then CHR '' '' else c) = (c = CHR ''_'')"
    using chars az09_facts underscore_facts by auto
  have "isolated (\<lambda>c. isspace (if ?P3 c then CHR '' '' else c)) s = isolated (\<lambda>c. c = CHR ''_'') s"
    using p4 by (rule isolated_cong)
  then have "isolated isspace ?m"
    unfolding isolated_map using iso by (simp only:)
  then have "sub_runs isspace ''_'' ?m = map (\<lambda>c. if isspace c then CHR ''_'' else c) ?m"
    by (rule sub_runs_isolated)
  also have "\<dots> = s"
    unfolding map_map using chars az09_facts underscore_facts by (intro map_idI) auto
  finally have s5: "sub_runs isspace ''_'' ?m = s" .
  have s6: "strip_chars ''_'' s = s"
    unfolding strip_chars_def using ends by (intro strip_where_id) auto
  show ?thesis
    unfolding normalize_header_def Let_def s1 s2 s3 s4 s5 s6 ..
qed

lemma nf_normalize_header: "nf (normalize_header header)"
proof -
  define t where "t = sub_runs (\<lambda>c. \<not> (is_az09 c \<or> isspace c)) '' ''
      (sub_runs (\<lambda>c. c \<in> set ''%/'') '' '' (lower (strip header)))"
  define u where "u = sub_runs isspace ''_'' t"
  have out: "normalize_header header = strip_chars ''_'' u"
    by (simp add: normalize_header_def t_def u_def)
  have t: "\<forall>c \<in> set t. is_az09 c \<or> isspace c"
    using set_sub_runs [of "\<lambda>c. \<not> (is_az09 c \<or> isspace c)" "'' ''"] underscore_facts
    unfolding t_def by fastforce
  then have t_us: "\<forall>c \<in> set t. c \<noteq> CHR ''_''"
    using az09_facts underscore_facts by blast
  have u: "\<forall>c \<in> set u. is_az09 c \<or> c = CHR ''_''"
    using set_sub_runs [of isspace "''_''" t] t unfolding u_def by fastforce
  have iso: "isolated (\<lambda>c. c = CHR ''_'') u"
    unfolding u_def using t_us by (rule sub_runs_isolated_out)
  obtain ps ss where split: "u = ps @ strip_chars ''_'' u @ ss"
    unfolding strip_chars_def using strip_where_infix by blast
  then have "set (strip_chars ''_'' u) \<subseteq> set u"
    by (metis Un_upper1 Un_upper2 set_append subset_trans)
  then have c1: "\<forall>c \<in> set (strip_chars ''_'' u). is_az09 c \<or> c = CHR ''_''"
    using u by blast
  have c2: "isolated (\<lambda>c. c = CHR ''_'') (strip_chars ''_'' u)"
    using iso split isolated_append by metis
  have c3: "strip_chars ''_'' u = []
      \<or> (hd (strip_chars ''_'' u) \<noteq> CHR ''_'' \<and> last (strip_chars ''_'' u) \<noteq> CHR ''_'')"
    using strip_where_ends [of "\<lambda>c. c \<in> set ''_''" u] unfolding strip_chars_def by simp
  show ?thesis
    unfolding out nf_def using c1 c2 c3 by blast
qed

subsection \<open>Duplicate headers\<close>

lemma dedupe_loop_spec:
  assumes "\<forall>h. seen h = (if count_list pre h = 0 then None else Some (count_list pre h))"
  shows "dedupe_loop hs seen result =
           result @ map (\<lambda>i. deduped_name (pre @ hs) (length pre + i)) [0..<length hs]"
  using assms
proof (induction hs arbitrary: seen pre result)
  case Nil
  show ?case by simp
next
  case (Cons h hs)
  let ?k = "count_list pre h"
  let ?seen' = "seen(h \<mapsto> ?k + 1)"
  let ?name = "if ?k = 0 then h else h @ ''_'' @ str_nat (?k + 1)"
  have inv: "\<forall>x. ?seen' x = (if count_list (pre @ [h]) x = 0 then None else Some (count_list (pre @ [h]) x))"
    using Cons.prems by simp
  have step: "dedupe_loop (h # hs) seen result = dedupe_loop hs ?seen' (result @ [?name])"
    using Cons.prems by (simp split: option.splits)
  have occ: "occurrence (pre @ h # hs) (length pre) = ?k + 1"
    by (simp add: occurrence_def)
  have name0: "deduped_name (pre @ h # hs) (length pre) = ?name"
    unfolding deduped_name_def occ by simp
  have "dedupe_loop hs ?seen' (result @ [?name]) =
      (result @ [?name]) @ map (\<lambda>i. deduped_name ((pre @ [h]) @ hs) (length (pre @ [h]) + i)) [0..<length hs]"
    using inv by (rule Cons.IH)
  also have "\<dots> = result @ map (\<lambda>i. deduped_name (pre @ h # hs) (length pre + i)) [0..<length (h # hs)]"
    using name0 by (simp add: upt_conv_Cons map_Suc_upt [symmetric] del: upt_Suc)
  finally show ?case using step by simp
qed

lemma dedupe_headers_map:
  "dedupe_headers headers = map (deduped_name headers) [0..<length headers]"
  using dedupe_loop_spec [of Map.empty "[]" headers "[]"] by (simp add: dedupe_headers_def)

subsection \<open>The CSV files\<close>

lemma get_column_order_eq:
  "get_column_order d =
     [col \<leftarrow> priority_cols. col \<in> set (keys d)]
     @ sort (remdups [col \<leftarrow> keys d. col \<notin> set priority_cols])"
proof -
  have "{col \<in> set (keys d). col \<notin> set priority_cols} = set [col \<leftarrow> keys d. col \<notin> set priority_cols]"
    by auto
  then have "sorted_list_of_set {col \<in> set (keys d). col \<notin> set priority_cols}
      = sort (remdups [col \<leftarrow> keys d. col \<notin> set priority_cols])"
    by (simp only: sorted_list_of_set_sort_remdups)
  then show ?thesis
    unfolding get_column_order_def Let_def by (simp only:)
qed

lemma set_get_column_order: "set (get_column_order d) = set (keys d)"
  by (auto simp: get_column_order_eq)

lemma dict_to_list_ok:
  "set (keys d) \<subseteq> set fieldnames \<Longrightarrow>
     dict_to_list fieldnames d = Inr (map (\<lambda>key. dict_get d key []) fieldnames)"
  by (auto simp: dict_to_list_def list_ex_iff)

lemma dict_to_list_extra:
  "k \<in> set (keys d) \<Longrightarrow> k \<notin> set fieldnames \<Longrightarrow> dict_to_list fieldnames d = Inl ValueError"
  by (auto simp: dict_to_list_def list_ex_iff)

lemma dict_get_missing: "k \<notin> set (keys d) \<Longrightarrow> dict_get d k dflt = dflt"
  by (simp add: dict_get_def keys_def map_of_eq_None_iff [THEN iffD2])

lemma save_first:
  assumes "columns self = None"
  shows "save_player_to_csv stats self =
     (Inr (), self\<lparr>columns := Some (get_column_order stats), csv_initialized := True,
        output_file := Some ((if csv_initialized self then (case output_file self of None \<Rightarrow> [] | Some rows \<Rightarrow> rows) else [])
          @ (if output_file self \<noteq> None \<and> csv_initialized self then [] else [get_column_order stats])
          @ [map (\<lambda>key. dict_get stats key []) (get_column_order stats)])\<rparr>)"
  using assms dict_to_list_ok [of stats "get_column_order stats"]
  by (simp add: save_player_to_csv_def Let_def set_get_column_order)

lemma save_columns_fixed:
  assumes "columns self = Some cols"
  shows "columns (snd (save_player_to_csv stats self)) = Some cols"
  using assms by (simp add: save_player_to_csv_def Let_def split: sum.splits)


lemma save_rejects:
  assumes "columns self = Some cols" "\<not> set (keys stats) \<subseteq> set cols"
  shows "save_player_to_csv stats self =
     (Inl ValueError, self\<lparr>csv_initialized := True,
        output_file := Some ((if csv_initialized self then (case output_file self of None \<Rightarrow> [] | Some rows \<Rightarrow> rows) else [])
          @ (if output_file self \<noteq> None \<and> csv_initialized self then [] else [cols]))\<rparr>)"
proof -
  obtain k where "k \<in> set (keys stats)" "k \<notin> set cols"
    using assms(2) by blast
  then have "dict_to_list cols stats = Inl ValueError"
    by (rule dict_to_list_extra)
  then show ?thesis
    using assms(1) by (simp add: save_player_to_csv_def Let_def)
qed

lemma save_accepts:
  assumes "columns self = Some cols" "set (keys stats) \<subseteq> set cols"
  shows "save_player_to_csv stats self =
     (Inr (), self\<lparr>csv_initialized := True,
        output_file := Some ((if csv_initialized self then (case output_file self of None \<Rightarrow> [] | Some rows \<Rightarrow> rows) else [])
          @ (if output_file self \<noteq> None \<and> csv_initialized self then [] else [cols])
          @ [map (\<lambda>key. dict_get stats key []) cols])\<rparr>)"
  using assms dict_to_list_ok [of stats cols]
  by (simp add: save_player_to_csv_def Let_def)

lemma writerows_ok:
  "\<forall>row \<in> set rows. set (keys row) \<subseteq> set cols \<Longrightarrow>
     writerows cols rows f = (None, f @ map (\<lambda>row. map (\<lambda>key. dict_get row key []) cols) rows)"
  by (induction rows arbitrary: f) (simp_all add: dict_to_list_ok)

lemma write_csv_eq:
  assumes "rows \<noteq> []"
  shows "write_csv rows file =
     (None, Some (all_columns rows # map (\<lambda>row. map (\<lambda>key. dict_get row key []) (all_columns rows)) rows))"
proof -
  let ?all = "set base_columns \<union> (\<Union>row \<in> set rows. set (keys row))"
  have "{key \<in> ?all. key \<notin> set base_columns} = set [key \<leftarrow> concat (map keys rows). key \<notin> set base_columns]"
    by auto
  then have "sorted_list_of_set {key \<in> ?all. key \<notin> set base_columns}
      = sort (remdups [key \<leftarrow> concat (map keys rows). key \<notin> set base_columns])"
    by (simp only: sorted_list_of_set_sort_remdups)
  then have cols: "base_columns @ sorted_list_of_set {key \<in> ?all. key \<notin> set base_columns} = all_columns rows"
    by (simp only: all_columns_def)
  have "\<forall>row \<in> set rows. set (keys row) \<subseteq> set (all_columns rows)"
    by (auto simp: all_columns_def)
  then have "writerows (all_columns rows) rows [all_columns rows] =
      (None, [all_columns rows] @ map (\<lambda>row. map (\<lambda>key. dict_get row key []) (all_columns rows)) rows)"
    by (rule writerows_ok)
  then show ?thesis
    using assms unfolding write_csv_def Let_def cols by simp
qed


lemma saves_append:
  assumes "columns self = Some cols" "csv_initialized self" "output_file self = Some rows"
  shows "output_file (fold (\<lambda>stats self. snd (save_player_to_csv stats self)) later self) =
           Some (rows @ map (\<lambda>s. map (\<lambda>key. dict_get s key []) cols)
                          [s \<leftarrow> later. set (keys s) \<subseteq> set cols])"
  using assms
proof (induction later arbitrary: self rows)
  case Nil
  then show ?case by simp
next
  case (Cons stats later)
  show ?case
  proof (cases "set (keys stats) \<subseteq> set cols")
    case True
    let ?self1 = "snd (save_player_to_csv stats self)"
    have "columns ?self1 = Some cols" "csv_initialized ?self1"
      "output_file ?self1 = Some (rows @ [map (\<lambda>key. dict_get stats key []) cols])"
      using Cons.prems True by (simp_all add: save_accepts)
    from Cons.IH [OF this] show ?thesis
      using True by simp
  next
    case False
    let ?self1 = "snd (save_player_to_csv stats self)"
    have "columns ?self1 = Some cols" "csv_initialized ?self1" "output_file ?self1 = Some rows"
      using Cons.prems False by (simp_all add: save_rejects)
    from Cons.IH [OF this] show ?thesis
      using False by simp
  qed
qed

lemma run_file:
  assumes "columns self = None" "\<not> csv_initialized self"
  shows "output_file (fold (\<lambda>stats self. snd (save_player_to_csv stats self)) (stats # later) self) =
           Some (get_column_order stats
                 # map (\<lambda>s. map (\<lambda>key. dict_get s key []) (get_column_order stats))
                     (stats # [s \<leftarrow> later. set (keys s) \<subseteq> set (keys stats)]))"
proof -
  let ?cols = "get_column_order stats"
  let ?self1 = "snd (save_player_to_csv stats self)"
  have "columns ?self1 = Some ?cols" "csv_initialized ?self1"
    "output_file ?self1 = Some ([?cols] @ [map (\<lambda>key. dict_get stats key []) ?cols])"
    using assms by (simp_all add: save_first)
  from saves_append [OF this, of later] show ?thesis
    by (simp add: set_get_column_order)
qed

subsection \<open>One pass of the pagination loop\<close>

lemma hasNext_press:
  "hasNext (read_page_info (dom_of site s)) \<Longrightarrow> press_next site s = click_next_link site s"
  by (auto simp: read_page_info_def press_next_def split: option.splits prod.splits)

lemma loop_no_rows:
  "td_rows (read_table_data (dom_of site s)) = [] \<Longrightarrow>
     scrape_tab_loop site max_pages url tab_name s rws = Some (Stopped NoRows s rws)"
  by (subst scrape_tab_loop.simps) simp

lemma loop_max_pages:
  "td_rows (read_table_data (dom_of site s)) \<noteq> [] \<Longrightarrow>
   max_pages_reached max_pages (current (read_page_info (dom_of site s))) \<Longrightarrow>
     scrape_tab_loop site max_pages url tab_name s rws =
       Some (Stopped MaxPages s (rws @ page_rows site url tab_name s))"
  by (subst scrape_tab_loop.simps) (simp add: page_rows_def Let_def)

lemma loop_no_next:
  "td_rows (read_table_data (dom_of site s)) \<noteq> [] \<Longrightarrow>
   \<not> max_pages_reached max_pages (current (read_page_info (dom_of site s))) \<Longrightarrow>
   \<not> hasNext (read_page_info (dom_of site s)) \<Longrightarrow>
     scrape_tab_loop site max_pages url tab_name s rws =
       Some (Stopped NoNext s (rws @ page_rows site url tab_name s))"
  by (subst scrape_tab_loop.simps) (simp add: page_rows_def Let_def)

lemma loop_continues:
  "continues site max_pages s \<Longrightarrow>
     scrape_tab_loop site max_pages url tab_name s rws =
       scrape_tab_loop site max_pages url tab_name (click_next_link site s)
         (rws @ page_rows site url tab_name s)"
  by (subst scrape_tab_loop.simps)
     (simp add: continues_def page_rows_def Let_def click_next_def hasNext_press)

lemma loop_stall:
  "td_rows (read_table_data (dom_of site s)) \<noteq> [] \<Longrightarrow>
   \<not> max_pages_reached max_pages (current (read_page_info (dom_of site s))) \<Longrightarrow>
   hasNext (read_page_info (dom_of site s)) \<Longrightarrow>
   \<not> page_changed (dom_of site (click_next_link site s)) (current (read_page_info (dom_of site s))) \<Longrightarrow>
     scrape_tab_loop site max_pages url tab_name s rws =
       Some (Raised PlaywrightTimeoutError (click_next_link site s)
               (rws @ page_rows site url tab_name s))"
  by (subst scrape_tab_loop.simps)
     (simp add: page_rows_def Let_def click_next_def hasNext_press)

lemma page_changed_iff:
  "\<not> page_changed d current_page \<longleftrightarrow>
     (\<exists>pg t. paging_el d = Some pg \<and> page_text pg = Some (current_page, t))"
  by (auto simp: page_changed_def split: option.splits)

text \<open>A loop that goes on from every state never returns.\<close>

lemma loop_never_returns:
  assumes "\<And>s. continues site max_pages s"
  shows "scrape_tab_loop site max_pages url tab_name s rws = None"
proof -
  have "\<not> (site' = site \<and> max_pages' = max_pages)"
    if "scrape_tab_loop site' max_pages' url tab_name s rws = Some r" for site' max_pages' r
    using that
  proof (rule scrape_tab_loop.raw_induct
      [rotated, where P = "\<lambda>site' max_pages' url tab_name s rws r. \<not> (site' = site \<and> max_pages' = max_pages)"])
    fix loop site' max_pages' url tab_name s rws r
    assume ih: "\<And>site' max_pages' url tab_name s rws r.
        loop site' max_pages' url tab_name s rws = Some r \<Longrightarrow>
        \<not> (site' = site \<and> max_pages' = max_pages)"
      and body: "(let page_info = read_page_info (dom_of site' s);
          current_page = current page_info;
          table_data = read_table_data (dom_of site' s)
      in if td_rows table_data = [] then Some (Stopped NoRows s rws)
         else
           (let hdrs = dedupe_headers (map normalize_header (td_headers table_data));
                rws1 = rws @ map (make_row url tab_name current_page hdrs) (td_rows table_data)
            in if max_pages_reached max_pages' current_page then Some (Stopped MaxPages s rws1)
               else if \<not> hasNext page_info then Some (Stopped NoNext s rws1)
               else
                 (case click_next site' s current_page of
                    (Some e, s1) \<Rightarrow> Some (Raised e s1 rws1)
                  | (None, s1) \<Rightarrow> loop site' max_pages' url tab_name s1 rws1))) = Some r"
    show "\<not> (site' = site \<and> max_pages' = max_pages)"
    proof
      assume eq: "site' = site \<and> max_pages' = max_pages"
      have c: "continues site max_pages s"
        by (rule assms)
      from body eq c have "\<exists>s1 rws1. loop site max_pages url tab_name s1 rws1 = Some r"
        by (auto simp: continues_def Let_def click_next_def hasNext_press split: if_splits)
      then show False
        using ih by blast
    qed
  qed
  then show ?thesis
    by (cases "scrape_tab_loop site max_pages url tab_name s rws") auto
qed

lemma unmatched_continues:
  assumes "td_rows (read_table_data (dom_of site s)) \<noteq> []"
    and "hasNext (read_page_info (dom_of site s))"
    and "paging_el (dom_of site s) = Some pg" "page_text pg = None"
    and "paging_el (dom_of site (click_next_link site s)) = Some pg'" "page_text pg' = None"
    and "\<not> max_pages_reached max_pages 1"
  shows "continues site max_pages s"
  using assms by (simp add: continues_def read_page_info_def page_changed_def)

subsection \<open>The retry loops\<close>

lemma attempts_append [simp]: "attempts (xs @ ys) = attempts xs + attempts ys"
  by (simp add: attempts_def)

lemma attempts_simps [simp]:
  "attempts [] = 0"
  "attempts (m # ms) = (if is_attempt m then 1 else 0) + attempts ms"
  by (simp_all add: attempts_def)

lemma extract_player_attempts:
  "extract_player br url (self, w, out) = (b, self1, w1, out1) \<Longrightarrow> attempts out1 = attempts out"
  by (auto simp: extract_player_def Let_def split: prod.splits sum.splits if_splits)

lemma attempt_attempts:
  "attempt br idx n url retries (self, w, out) = (b, self1, w1, out1) \<Longrightarrow>
     attempts out1 = attempts out + 1"
  by (auto simp: attempt_def Let_def split: prod.splits option.splits if_splits
      dest!: extract_player_attempts)

lemma player_loop_exhausts:
  assumes "\<forall>retries st. \<not> fst (attempt br idx n url retries st)"
  shows "fst (player_loop br idx n url retries st) = False
     \<and> attempts (snd (snd (snd (player_loop br idx n url retries st)))) =
         attempts (snd (snd st)) + (max_retries - retries)"
  using assms
proof (induction br idx n url retries st rule: player_loop.induct)
  case (1 br idx n url retries st)
  note fails = "1.prems"
  show ?case
  proof (cases "retries < max_retries")
    case False
    then show ?thesis by (simp add: player_loop.simps [of br idx n url retries st])
  next
    case True
    obtain b st1 where a: "attempt br idx n url retries st = (b, st1)"
      by (cases "attempt br idx n url retries st")
    have b: "b = False"
      using fails a by (metis fst_conv)
    obtain self w out where st: "st = (self, w, out)" by (cases st)
    obtain self1 w1 out1 where st1: "st1 = (self1, w1, out1)" by (cases st1)
    have n: "attempts out1 = attempts out + 1"
      by (rule attempt_attempts [OF a [unfolded st st1]])
    have ih: "fst (player_loop br idx n url (retries + 1) st1) = False
       \<and> attempts (snd (snd (snd (player_loop br idx n url (retries + 1) st1)))) =
           attempts (snd (snd st1)) + (max_retries - (retries + 1))"
      using "1.IH" [OF True a [unfolded b, symmetric] refl fails] .
    have "player_loop br idx n url retries st = player_loop br idx n url (retries + 1) st1"
      using True a b by (simp add: player_loop.simps [of br idx n url retries st])
    then show ?thesis
      using ih n True by (simp add: st st1)
  qed
qed


lemma page_attempt_goto_raises:
  assumes "fst (goto br url w) \<noteq> None"
  shows "\<exists>e w1 out1. page_attempt br url page_num retries has_next (self, w, out) =
           page_except e retries has_next page_num (self, w1, out1)
         \<and> attempts out1 = attempts out + 1"
proof -
  obtain e w1 where g: "goto br url w = (Some e, w1)"
    using assms by (cases "goto br url w") auto
  let ?out1 = "(if retries > 0 then out @ [Retry retries url_max_retries] else out)
      @ [ScrapingPage page_num url]"
  have "page_attempt br url page_num retries has_next (self, w, out) =
           page_except e retries has_next page_num (self, w1, ?out1)"
    by (simp add: page_attempt_def Let_def g)
  moreover have "attempts ?out1 = attempts out + 1"
    by simp
  ultimately show ?thesis
    by blast
qed

lemma page_loop_exhausts:
  assumes "\<forall>w. fst (goto br url w) \<noteq> None"
  shows "fst (page_loop br url page_num retries has_next st) =
           (if retries < url_max_retries then False else has_next)
     \<and> fst (snd (page_loop br url page_num retries has_next st)) = page_num
     \<and> fst (snd (snd (page_loop br url page_num retries has_next st))) = fst st
     \<and> attempts (snd (snd (snd (snd (page_loop br url page_num retries has_next st))))) =
         attempts (snd (snd st)) + (url_max_retries - retries)"
  using assms
proof (induction br url page_num retries has_next st rule: page_loop.induct)
  case (1 br url page_num retries has_next st)
  note fails = "1.prems"
  show ?case
  proof (cases "retries < url_max_retries")
    case False
    then show ?thesis by (simp add: page_loop.simps [of br url page_num retries has_next st])
  next
    case True
    obtain self w out where st: "st = (self, w, out)" by (cases st)
    obtain e w1 out1 where a: "page_attempt br url page_num retries has_next (self, w, out) =
           page_except e retries has_next page_num (self, w1, out1)"
      and n: "attempts out1 = attempts out + 1"
      using page_attempt_goto_raises [of br url w page_num retries has_next self out] fails by blast
    let ?hn = "if retries + 1 \<ge> url_max_retries then False else has_next"
    let ?out = "if retries + 1 \<ge> url_max_retries
                then out1 @ [Error e, FailedAfter url_max_retries] else out1 @ [Error e]"
    have a': "page_attempt br url page_num retries has_next st = (False, ?hn, page_num, self, w1, ?out)"
      unfolding st a by (simp add: page_except_def)
    have ih: "fst (page_loop br url page_num (retries + 1) ?hn (self, w1, ?out)) =
           (if retries + 1 < url_max_retries then False else ?hn)
       \<and> fst (snd (page_loop br url page_num (retries + 1) ?hn (self, w1, ?out))) = page_num
       \<and> fst (snd (snd (page_loop br url page_num (retries + 1) ?hn (self, w1, ?out)))) =
           fst (self, w1, ?out)
       \<and> attempts (snd (snd (snd (snd (page_loop br url page_num (retries + 1) ?hn (self, w1, ?out)))))) =
           attempts (snd (snd (self, w1, ?out))) + (url_max_retries - (retries + 1))"
      using "1.IH" [OF True a' [symmetric] refl refl refl fails] .
    have step: "page_loop br url page_num retries has_next st =
        page_loop br url page_num (retries + 1) ?hn (self, w1, ?out)"
      using True a' by (simp add: page_loop.simps [of br url page_num retries has_next st])
    show ?thesis
      unfolding step using ih n True by (auto simp: st)
  qed
qed

lemma pages_loop_stops:
  assumes "\<forall>w. fst (goto br (page_url (fst st)) w) \<noteq> None"
  shows "pages_loop br page_num True st =
           Some (snd (snd (page_loop br (page_url (fst st)) page_num 0 True st)))"
proof -
  obtain hn pn st1 where p: "page_loop br (page_url (fst st)) page_num 0 True st = (hn, pn, st1)"
    by (cases "page_loop br (page_url (fst st)) page_num 0 True st")
  have "fst (page_loop br (page_url (fst st)) page_num 0 True st) = False"
    using page_loop_exhausts [OF assms, of page_num 0 True st] by (simp add: url_max_retries_def)
  then have "hn = False"
    unfolding p by simp
  then have "pages_loop br page_num True st = pages_loop br pn False st1"
    using p by (subst pages_loop.simps) simp
  also have "\<dots> = Some st1"
    by (subst pages_loop.simps) simp
  finally show ?thesis
    by (simp add: p)
qed


lemma attempts_failed_after:
  "attempts (snd (snd (case x of (self, w, out) \<Rightarrow> (self, w, out @ [FailedAfter k])))) =
     attempts (snd (snd x))"
  by (cases x) simp

lemma scrape_urls_skips:
  assumes "\<forall>retries st1. \<not> fst (attempt br idx n url retries st1)"
  shows "scrape_urls br idx n (url # urls) st =
     scrape_urls br (idx + 1) n urls
       (case snd (player_loop br idx n url 0 st) of
          (self, w, out) \<Rightarrow> (self, w, out @ [FailedAfter max_retries]))"
proof -
  obtain b self w out where p: "player_loop br idx n url 0 st = (b, self, w, out)"
    by (cases "player_loop br idx n url 0 st")
  have "b = False"
    using player_loop_exhausts [OF assms, of 0 st] unfolding p by simp
  then show ?thesis
    by (simp add: p)
qed

lemma str_nat_60: "str_nat 60 = ''60''"
  by code_simp

subsection \<open>Rounding to a float\<close>

lemma binade_up_bounds:
  "1 \<le> x \<Longrightarrow> 2 powi binade_up x \<le> x \<and> x < 2 powi (binade_up x + 1)"
proof (induction x rule: binade_up.induct)
  case (1 x)
  show ?case
  proof (cases "x < 2")
    case True
    with 1 show ?thesis
      by (simp add: binade_up.simps [of x])
  next
    case False
    then have "1 \<le> x / 2"
      by simp
    with 1 False have ih: "2 powi binade_up (x / 2) \<le> x / 2 \<and> x / 2 < 2 powi (binade_up (x / 2) + 1)"
      by simp
    have e: "binade_up x = binade_up (x / 2) + 1"
      using False by (simp add: binade_up.simps [of x])
    show ?thesis
      using ih unfolding e by (simp add: power_int_add)
  qed
qed

lemma binade_down_bounds:
  "0 < x \<Longrightarrow> x < 1 \<Longrightarrow> 2 powi binade_down x \<le> x \<and> x < 2 powi (binade_down x + 1)"
proof (induction x rule: binade_down.induct)
  case (1 x)
  have e: "binade_down x = binade_down (2 * x) - 1"
    using 1 by (simp add: binade_down.simps [of x])
  show ?case
  proof (cases "2 * x < 1")
    case True
    with 1 have ih: "2 powi binade_down (2 * x) \<le> 2 * x \<and> 2 * x < 2 powi (binade_down (2 * x) + 1)"
      by simp
    show ?thesis
      using ih unfolding e by (simp add: power_int_add power_int_diff)
  next
    case False
    then have "binade_down (2 * x) = 0"
      by (simp add: binade_down.simps [of "2 * x"])
    with e have "binade_down x = - 1"
      by simp
    with False 1 show ?thesis
      by (simp add: power_int_minus)
  qed
qed

lemma binade_bounds:
  "x \<noteq> 0 \<Longrightarrow> 2 powi binade x \<le> \<bar>x\<bar> \<and> \<bar>x\<bar> < 2 powi (binade x + 1)"
  using binade_up_bounds [of "\<bar>x\<bar>"] binade_down_bounds [of "\<bar>x\<bar>"]
  by (auto simp: binade_def)

lemma pow2_less:
  assumes "(2::real) powi a < 2 powi b"
  shows "a < b"
proof (rule ccontr)
  assume "\<not> a < b"
  then have "(2::real) powi b \<le> 2 powi a"
    by (intro power_int_increasing) auto
  with assms show False
    by linarith
qed

lemma binade_unique:
  assumes "2 powi e \<le> \<bar>x\<bar>" "\<bar>x\<bar> < 2 powi (e + 1)"
  shows "binade x = e"
proof -
  have nz: "x \<noteq> 0"
  proof
    assume "x = 0"
    with assms(1) have "(2::real) powi e \<le> 0"
      by simp
    moreover have "(0::real) < 2 powi e"
      by simp
    ultimately show False
      by linarith
  qed
  note b = binade_bounds [OF nz]
  have "(2::real) powi e < 2 powi (binade x + 1)"
    using assms(1) b by linarith
  then have 1: "e < binade x + 1"
    by (rule pow2_less)
  have "(2::real) powi binade x < 2 powi (e + 1)"
    using assms(2) b by linarith
  then have 2: "binade x < e + 1"
    by (rule pow2_less)
  from 1 2 show ?thesis
    by simp
qed


lemma round_half_even_of_int: "round_half_even (of_int n) = n"
  by (simp add: round_half_even_def)

lemma round_half_even_cases:
  "round_half_even x = \<lfloor>x\<rfloor> \<and> x - of_int \<lfloor>x\<rfloor> \<le> 1 / 2
   \<or> round_half_even x = \<lfloor>x\<rfloor> + 1 \<and> 1 / 2 \<le> x - of_int \<lfloor>x\<rfloor>"
  by (auto simp: round_half_even_def Let_def)

lemma round_half_even_mono:
  assumes "x \<le> y"
  shows "round_half_even x \<le> round_half_even y"
proof (cases "\<lfloor>x\<rfloor> = \<lfloor>y\<rfloor>")
  case True
  then have "x - of_int \<lfloor>x\<rfloor> \<le> y - of_int \<lfloor>y\<rfloor>"
    using assms by simp
  then show ?thesis
    using True by (auto simp: round_half_even_def Let_def)
next
  case False
  with assms have "\<lfloor>x\<rfloor> < \<lfloor>y\<rfloor>"
    using floor_mono [of x y] by linarith
  then show ?thesis
    using round_half_even_cases [of x] round_half_even_cases [of y] by linarith
qed

lemma ulp_pos: "0 < ulp x"
  by (simp add: ulp_def)

lemma round_float_0: "round_float 0 = 0"
  by (simp add: round_float_def round_half_even_def)

lemma round_float_binade:
  assumes "0 < x"
  shows "2 powi binade x \<le> round_float x \<and> round_float x \<le> 2 powi (binade x + 1)"
proof -
  have b: "2 powi binade x \<le> x" "x < 2 powi (binade x + 1)"
    using binade_bounds [of x] assms by auto
  have l: "(2::real) powi binade x = 2 ^ 52 * ulp x"
    unfolding ulp_def by (simp add: power_int_diff)
  have u: "(2::real) powi (binade x + 1) = 2 ^ 53 * ulp x"
    unfolding ulp_def by (simp add: power_int_diff power_int_add)
  have "of_int (2 ^ 52) \<le> x / ulp x"
    using b(1) ulp_pos [of x] unfolding l by (simp add: field_simps)
  then have "round_half_even (of_int (2 ^ 52)) \<le> round_half_even (x / ulp x)"
    by (rule round_half_even_mono)
  then have 1: "2 ^ 52 \<le> round_half_even (x / ulp x)"
    by (simp only: round_half_even_of_int)
  have "x / ulp x \<le> of_int (2 ^ 53)"
    using b(2) ulp_pos [of x] unfolding u by (simp add: field_simps)
  then have "round_half_even (x / ulp x) \<le> round_half_even (of_int (2 ^ 53))"
    by (rule round_half_even_mono)
  then have 2: "round_half_even (x / ulp x) \<le> 2 ^ 53"
    by (simp only: round_half_even_of_int)
  have "(2::real) ^ 52 \<le> of_int (round_half_even (x / ulp x))"
    using 1 by (metis of_int_le_iff of_int_numeral of_int_power)
  then have 3: "2 ^ 52 * ulp x \<le> round_float x"
    unfolding round_float_def using ulp_pos [of x] by simp
  have "of_int (round_half_even (x / ulp x)) \<le> (2::real) ^ 53"
    using 2 by (metis of_int_le_iff of_int_numeral of_int_power)
  then have 4: "round_float x \<le> 2 ^ 53 * ulp x"
    unfolding round_float_def using ulp_pos [of x] by simp
  from 3 4 show ?thesis
    unfolding l u by simp
qed

lemma round_float_mono:
  assumes "0 \<le> x" "x \<le> y"
  shows "round_float x \<le> round_float y"
proof (cases "x = 0")
  case True
  show ?thesis
  proof (cases "y = 0")
    case True
    with \<open>x = 0\<close> show ?thesis by simp
  next
    case False
    with assms True have "0 < y" by simp
    then have "0 \<le> round_float y"
      using round_float_binade [of y] zero_less_power_int [of "2::real" "binade y"] by linarith
    with True show ?thesis
      by (simp add: round_float_0)
  qed
next
  case False
  with assms have p: "0 < x" "0 < y"
    by auto
  have bx: "2 powi binade x \<le> x" "x < 2 powi (binade x + 1)"
    using binade_bounds [of x] p by auto
  have by': "2 powi binade y \<le> y" "y < 2 powi (binade y + 1)"
    using binade_bounds [of y] p by auto
  have "(2::real) powi binade x < 2 powi (binade y + 1)"
    using bx(1) by'(2) assms(2) by linarith
  then have le: "binade x \<le> binade y"
    using pow2_less [of "binade x" "binade y + 1"] by simp
  show ?thesis
  proof (cases "binade x = binade y")
    case True
    then have u: "ulp x = ulp y"
      by (simp add: ulp_def)
    have "x / ulp y \<le> y / ulp y"
      using assms(2) ulp_pos [of y] by (simp add: divide_right_mono)
    then have "round_half_even (x / ulp y) \<le> round_half_even (y / ulp y)"
      by (rule round_half_even_mono)
    then show ?thesis
      unfolding round_float_def u using ulp_pos [of y] by simp
  next
    case False
    with le have "binade x + 1 \<le> binade y"
      by simp
    then have "(2::real) powi (binade x + 1) \<le> 2 powi binade y"
      by (intro power_int_increasing) auto
    then show ?thesis
      using round_float_binade [OF p(1)] round_float_binade [OF p(2)] by linarith
  qed
qed

lemma round_float_of_int:
  assumes "\<bar>m\<bar> < 2 ^ 53"
  shows "round_float (of_int m) = of_int m"
proof (cases "m = 0")
  case True
  then show ?thesis
    by (simp add: round_float_0)
next
  case False
  define e where "e = binade (of_int m)"
  have b: "2 powi e \<le> \<bar>of_int m :: real\<bar>"
    unfolding e_def using binade_bounds [of "of_int m"] False by simp
  have "\<bar>of_int m :: real\<bar> < 2 ^ 53"
    using assms by (metis of_int_abs of_int_less_iff of_int_numeral of_int_power)
  with b have "(2::real) powi e < 2 powi 53"
    by simp
  then have "e < 53"
    by (rule pow2_less)
  then have k: "52 - e = int (nat (52 - e))"
    by simp
  have "ulp (of_int m) = 2 powi (- (52 - e))"
    by (simp add: ulp_def e_def)
  also have "\<dots> = 1 / 2 ^ nat (52 - e)"
    by (subst k, simp only: power_int_minus power_int_of_nat) (simp add: field_simps)
  finally have u: "ulp (of_int m) = 1 / 2 ^ nat (52 - e)" .
  have "of_int m / ulp (of_int m) = (of_int (m * 2 ^ nat (52 - e)) :: real)"
    unfolding u by simp
  then have "round_half_even (of_int m / ulp (of_int m)) = m * 2 ^ nat (52 - e)"
    by (simp only: round_half_even_of_int)
  then show ?thesis
    unfolding round_float_def by (simp add: u)
qed


lemma round_float_numeral:
  "(numeral k :: int) < 2 ^ 53 \<Longrightarrow> round_float (numeral k) = numeral k"
  using round_float_of_int [of "numeral k"] by simp

lemma round_float_1: "round_float 1 = 1"
  using round_float_of_int [of 1] by simp

lemma round_float_exact:
  assumes "2 powi e \<le> \<bar>x\<bar>" "\<bar>x\<bar> < 2 powi (e + 1)" "x / 2 powi (e - 52) = of_int k"
  shows "round_float x = x"
proof -
  have "binade x = e"
    using assms(1,2) by (rule binade_unique)
  then have u: "ulp x = 2 powi (e - 52)"
    by (simp add: ulp_def)
  have "round_half_even (x / ulp x) = k"
    unfolding u assms(3) by (rule round_half_even_of_int)
  then have "round_float x = of_int k * 2 powi (e - 52)"
    unfolding round_float_def u by simp
  also have "\<dots> = x"
    unfolding assms(3) [symmetric] by simp
  finally show ?thesis .
qed

lemma to_float_small: "\<bar>m\<bar> < 2 ^ 53 \<Longrightarrow> to_float m = of_int m"
  by (simp add: to_float_def round_float_of_int)

lemma uniform_1_5_bounds:
  assumes "0 \<le> u" "u < 1"
  shows "1 \<le> uniform 1 5 u \<and> uniform 1 5 u \<le> 5"
proof -
  have t: "to_float 1 = 1" "to_float (5 - 1) = 4"
    by (simp_all add: to_float_small)
  have "round_float 0 \<le> round_float (4 * u)"
    using assms by (intro round_float_mono) auto
  moreover have "round_float (4 * u) \<le> round_float 4"
    using assms by (intro round_float_mono) auto
  ultimately have j: "0 \<le> round_float (4 * u)" "round_float (4 * u) \<le> 4"
    by (simp_all add: round_float_0 round_float_numeral)
  have "round_float 1 \<le> round_float (1 + round_float (4 * u))"
    using j by (intro round_float_mono) auto
  moreover have "round_float (1 + round_float (4 * u)) \<le> round_float 5"
    using j by (intro round_float_mono) auto
  ultimately show ?thesis
    unfolding uniform_def t by (simp add: round_float_1 round_float_numeral)
qed

lemma uniform_1_5_lower:
  assumes "0 \<le> u"
  shows "1 \<le> uniform 1 5 u"
proof -
  have t: "to_float 1 = 1" "to_float (5 - 1) = 4"
    by (simp_all add: to_float_small)
  have "round_float 0 \<le> round_float (4 * u)"
    using assms by (intro round_float_mono) auto
  then have j: "0 \<le> round_float (4 * u)"
    by (simp add: round_float_0)
  have "round_float 1 \<le> round_float (1 + round_float (4 * u))"
    using j by (intro round_float_mono) auto
  then show ?thesis
    unfolding uniform_def t by (simp add: round_float_1)
qed

lemma to_float_backoff_base:
  assumes "retries \<le> 52"
  shows "to_float (backoff_base retries) = 2 ^ retries"
proof -
  have "(2::int) ^ retries \<le> 2 ^ 52"
    using assms by (intro power_increasing) auto
  then have "\<bar>(2::int) ^ retries\<bar> < 2 ^ 53"
    by simp
  then show ?thesis
    unfolding backoff_base_def by (simp add: to_float_small)
qed

lemma backoff_delay_bounds:
  assumes "retries \<le> 52" "0 \<le> u" "u < 1"
  shows "2 ^ retries + 1 \<le> backoff_delay retries u \<and> backoff_delay retries u \<le> 2 ^ retries + 5"
proof -
  note j = uniform_1_5_bounds [OF assms(2,3)]
  have p: "(2::int) ^ retries \<le> 2 ^ 52"
    using assms(1) by (intro power_increasing) auto
  have r1: "round_float (of_int (2 ^ retries + 1)) = of_int (2 ^ retries + 1)"
    using p by (intro round_float_of_int) simp
  have r5: "round_float (of_int (2 ^ retries + 5)) = of_int (2 ^ retries + 5)"
    using p by (intro round_float_of_int) simp
  have "round_float (of_int (2 ^ retries + 1)) \<le> round_float (2 ^ retries + uniform 1 5 u)"
    using j by (intro round_float_mono) auto
  moreover have "round_float (2 ^ retries + uniform 1 5 u) \<le> round_float (of_int (2 ^ retries + 5))"
    using j by (intro round_float_mono) (auto intro: add_nonneg_nonneg)
  ultimately show ?thesis
    unfolding backoff_delay_def to_float_backoff_base [OF assms(1)] r1 r5 by simp
qed

lemma backoff_delay_lower:
  assumes "retries \<le> 52" "0 \<le> u"
  shows "2 ^ retries + 1 \<le> backoff_delay retries u"
proof -
  note j = uniform_1_5_lower [OF assms(2)]
  have p: "(2::int) ^ retries \<le> 2 ^ 52"
    using assms(1) by (intro power_increasing) auto
  have r1: "round_float (of_int (2 ^ retries + 1)) = of_int (2 ^ retries + 1)"
    using p by (intro round_float_of_int) simp
  have "round_float (of_int (2 ^ retries + 1)) \<le> round_float (2 ^ retries + uniform 1 5 u)"
    using j by (intro round_float_mono) auto
  then show ?thesis
    unfolding backoff_delay_def to_float_backoff_base [OF assms(1)] r1 by simp
qed

lemma uniform_1_5_0: "uniform 1 5 0 = 1"
  by (simp add: uniform_def to_float_small round_float_0 round_float_1)

lemma uniform_1_5_half: "uniform 1 5 (1 / 2) = 3"
  by (simp add: uniform_def to_float_small round_float_numeral round_float_1)

lemma uniform_1_5_last: "uniform 1 5 (1 - 1 / 2 ^ 53) = 5"
proof -
  have a: "round_float (4 * (1 - 1 / 2 ^ 53)) = 4 * (1 - 1 / 2 ^ 53)"
    by (rule round_float_exact [where e = 1 and k = "2 ^ 53 - 1"]) (simp_all add: power_int_minus)
  have b: "binade (1 + 4 * (1 - 1 / 2 ^ 53)) = 2"
    by (rule binade_unique) simp_all
  have c: "round_float (1 + 4 * (1 - 1 / 2 ^ 53)) = 5"
    unfolding round_float_def ulp_def b
    by (simp add: power_int_minus round_half_even_def)
  have t: "to_float 1 = 1" "to_float (5 - 1) = 4"
    by (simp_all add: to_float_small)
  show ?thesis
    unfolding uniform_def t a by (rule c)
qed

lemma backoff_delay_at:
  assumes "retries \<le> 52" "uniform 1 5 u = of_int j" "0 \<le> j" "j \<le> 5"
  shows "backoff_delay retries u = 2 ^ retries + of_int j"
proof -
  have p: "(2::int) ^ retries \<le> 2 ^ 52"
    using assms(1) by (intro power_increasing) auto
  have "round_float (of_int (2 ^ retries + j)) = of_int (2 ^ retries + j)"
    using p assms(3,4) by (intro round_float_of_int) simp
  then show ?thesis
    unfolding backoff_delay_def to_float_backoff_base [OF assms(1)] assms(2) by simp
qed

text \<open>
  C1. Schema of the persisted output. In the sofifa scraper the first record fixes the
  columns: the known fields it has, in their fixed order, then its other keys in ascending
  order. The columns never change afterwards: a later record with a key outside them
  is refused with \<open>ValueError\<close> and no row is written for it; a record whose keys are
  all among the columns gets one row, with the empty string in every column it does not
  have. The WhoScored scraper writes all rows at the end of the run: its columns are
  the nine base columns, then every other key of any row in ascending order, and a row
  has the empty string where it lacks the column.
\<close>

theorem schema_fixed_by_first_record:
  "(columns self = None \<longrightarrow>
      fst (save_player_to_csv stats self) = Inr ()
      \<and> columns (snd (save_player_to_csv stats self)) = Some (get_column_order stats))
   \<and> get_column_order stats =
       [col \<leftarrow> priority_cols. col \<in> set (keys stats)]
       @ sort (remdups [col \<leftarrow> keys stats. col \<notin> set priority_cols])
   \<and> (columns self = Some cols \<longrightarrow> columns (snd (save_player_to_csv stats self)) = Some cols)
   \<and> (columns self = Some cols \<and> \<not> set (keys stats) \<subseteq> set cols
        \<and> csv_initialized self \<and> output_file self = Some rows \<longrightarrow>
      save_player_to_csv stats self = (Inl ValueError, self))
   \<and> (columns self = Some cols \<and> set (keys stats) \<subseteq> set cols
        \<and> csv_initialized self \<and> output_file self = Some rows \<longrightarrow>
      save_player_to_csv stats self =
        (Inr (), self\<lparr>output_file := Some (rows @ [map (\<lambda>key. dict_get stats key []) cols])\<rparr>))
   \<and> (key \<notin> set (keys stats) \<longrightarrow> dict_get stats key [] = [])
   \<and> (wrows \<noteq> [] \<longrightarrow>
      write_csv wrows file =
        (None, Some (all_columns wrows
                     # map (\<lambda>row. map (\<lambda>key. dict_get row key []) (all_columns wrows)) wrows)))"
proof -
  have "columns self = None \<longrightarrow>
      fst (save_player_to_csv stats self) = Inr ()
      \<and> columns (snd (save_player_to_csv stats self)) = Some (get_column_order stats)"
    by (simp add: save_first)
  moreover have "columns self = Some cols \<longrightarrow> columns (snd (save_player_to_csv stats self)) = Some cols"
    by (simp add: save_columns_fixed)
  moreover have "columns self = Some cols \<and> \<not> set (keys stats) \<subseteq> set cols
        \<and> csv_initialized self \<and> output_file self = Some rows \<longrightarrow>
      save_player_to_csv stats self = (Inl ValueError, self)"
    by (simp add: save_rejects)
  moreover have "columns self = Some cols \<and> set (keys stats) \<subseteq> set cols
        \<and> csv_initialized self \<and> output_file self = Some rows \<longrightarrow>
      save_player_to_csv stats self =
        (Inr (), self\<lparr>output_file := Some (rows @ [map (\<lambda>key. dict_get stats key []) cols])\<rparr>)"
    by (simp add: save_accepts)
  moreover have "key \<notin> set (keys stats) \<longrightarrow> dict_get stats key [] = []"
    by (simp add: dict_get_missing)
  ultimately show ?thesis
    using get_column_order_eq [of stats] write_csv_eq [of wrows "file"] by blast
qed

theorem schema_fixed_by_first_record_witness:
  "save_player_to_csv [(''a'', ''1''), (''b'', ''2'')] (init_scraper None) =
     (Inr (), \<lparr>player_urls = [], player_stats = [], columns = Some [''a'', ''b''],
        csv_initialized = True, output_file = Some [[''a'', ''b''], [''1'', ''2'']]\<rparr>)
   \<and> save_player_to_csv [(''a'', ''1'')]
        \<lparr>player_urls = [], player_stats = [], columns = Some [''a'', ''b''],
         csv_initialized = True, output_file = Some [[''a'', ''b''], [''1'', ''2'']]\<rparr> =
     (Inr (), \<lparr>player_urls = [], player_stats = [], columns = Some [''a'', ''b''],
        csv_initialized = True,
        output_file = Some [[''a'', ''b''], [''1'', ''2''], [''1'', []]]\<rparr>)"
proof -
  have g: "get_column_order [(''a'', ''1''), (''b'', ''2'')] = [''a'', ''b'']"
    by code_simp
  have first: "save_player_to_csv [(''a'', ''1''), (''b'', ''2'')] (init_scraper None) =
     (Inr (), \<lparr>player_urls = [], player_stats = [], columns = Some [''a'', ''b''],
        csv_initialized = True, output_file = Some [[''a'', ''b''], [''1'', ''2'']]\<rparr>)"
    by (simp add: save_first init_scraper_def g dict_get_def)
  show ?thesis
    using first
      schema_fixed_by_first_record [of
        "\<lparr>player_urls = [], player_stats = [], columns = Some [''a'', ''b''],
          csv_initialized = True, output_file = Some [[''a'', ''b''], [''1'', ''2'']]\<rparr>"
        "[(''a'', ''1'')]" "[''a'', ''b'']" "[[''a'', ''b''], [''1'', ''2'']]" "''b''"
        "[[(''a'', ''1'')]]" None]
    by (simp add: keys_def dict_get_def)
qed

text \<open>
  The claim as the specification states it, that a later record with a new key adds the
  key as the last column, fails on the example of the specification: the record with
  the key \<open>c\<close> is refused and the columns stay \<open>a\<close>, \<open>b\<close>. In the WhoScored file the
  key \<open>a\<close> of the second row stands before the key \<open>z\<close> of the first.
\<close>

theorem schema_growth_counterexample:
  "save_player_to_csv [(''a'', ''1''), (''b'', ''2''), (''c'', ''3'')]
     (snd (save_player_to_csv [(''a'', ''1''), (''b'', ''2'')] (init_scraper None))) =
     (Inl ValueError, \<lparr>player_urls = [], player_stats = [], columns = Some [''a'', ''b''],
        csv_initialized = True, output_file = Some [[''a'', ''b''], [''1'', ''2'']]\<rparr>)
   \<and> map_option hd (snd (write_csv [[(''z'', ''1'')], [(''a'', ''2'')]] None)) = Some (base_columns @ [''a'', ''z''])"
proof -
  have g: "get_column_order [(''a'', ''1''), (''b'', ''2'')] = [''a'', ''b'']"
    by code_simp
  have first: "save_player_to_csv [(''a'', ''1''), (''b'', ''2'')] (init_scraper None) =
     (Inr (), \<lparr>player_urls = [], player_stats = [], columns = Some [''a'', ''b''],
        csv_initialized = True, output_file = Some [[''a'', ''b''], [''1'', ''2'']]\<rparr>)"
    by (simp add: save_first init_scraper_def g dict_get_def)
  have second: "save_player_to_csv [(''a'', ''1''), (''b'', ''2''), (''c'', ''3'')]
       \<lparr>player_urls = [], player_stats = [], columns = Some [''a'', ''b''],
        csv_initialized = True, output_file = Some [[''a'', ''b''], [''1'', ''2'']]\<rparr> =
     (Inl ValueError, \<lparr>player_urls = [], player_stats = [], columns = Some [''a'', ''b''],
        csv_initialized = True, output_file = Some [[''a'', ''b''], [''1'', ''2'']]\<rparr>)"
    by (simp add: save_rejects keys_def)
  have a: "all_columns [[(''z'', ''1'')], [(''a'', ''2'')]] = base_columns @ [''a'', ''z'']"
    by code_simp
  show ?thesis
    unfolding first snd_conv second by (simp add: write_csv_eq a)
qed

text \<open>
  C2. Incremental persistence. The first \<open>save_player_to_csv\<close> of a run opens the file
  with mode \<open>'w'\<close>: it holds the header and the row of the record, whatever it held
  before. Every later call of the run leaves the rows of the file as they are and appends
  at most one row, without a header. So the file of a run is one header, then the rows
  of the records that fit the columns; the header is decided by the flag
  \<open>csv_initialized\<close> of the run and by the file being there.
\<close>

theorem save_player_to_csv_file:
  "(columns self = None \<and> \<not> csv_initialized self \<longrightarrow>
      output_file (snd (save_player_to_csv stats self)) =
        Some [get_column_order stats, map (\<lambda>key. dict_get stats key []) (get_column_order stats)]
      \<and> csv_initialized (snd (save_player_to_csv stats self)))
   \<and> (columns self = Some cols \<and> csv_initialized self \<and> output_file self = Some rows \<longrightarrow>
      output_file (snd (save_player_to_csv stats self)) =
        Some (rows @ (if set (keys stats) \<subseteq> set cols
                      then [map (\<lambda>key. dict_get stats key []) cols] else []))
      \<and> csv_initialized (snd (save_player_to_csv stats self)))
   \<and> (columns self = None \<and> \<not> csv_initialized self \<longrightarrow>
      output_file (fold (\<lambda>stats self. snd (save_player_to_csv stats self)) (stats # later) self) =
        Some (get_column_order stats
              # map (\<lambda>s. map (\<lambda>key. dict_get s key []) (get_column_order stats))
                  (stats # [s \<leftarrow> later. set (keys s) \<subseteq> set (keys stats)])))"
proof -
  have "columns self = None \<and> \<not> csv_initialized self \<longrightarrow>
      output_file (snd (save_player_to_csv stats self)) =
        Some [get_column_order stats, map (\<lambda>key. dict_get stats key []) (get_column_order stats)]
      \<and> csv_initialized (snd (save_player_to_csv stats self))"
    by (simp add: save_first)
  moreover have "columns self = Some cols \<and> csv_initialized self \<and> output_file self = Some rows \<longrightarrow>
      output_file (snd (save_player_to_csv stats self)) =
        Some (rows @ (if set (keys stats) \<subseteq> set cols
                      then [map (\<lambda>key. dict_get stats key []) cols] else []))
      \<and> csv_initialized (snd (save_player_to_csv stats self))"
    by (simp add: save_accepts save_rejects)
  ultimately show ?thesis
    using run_file [of self stats later] by blast
qed

theorem save_player_to_csv_file_witness:
  "output_file (fold (\<lambda>stats self. snd (save_player_to_csv stats self))
      [[(''a'', ''1''), (''b'', ''2'')], [(''a'', ''3'')], [(''c'', ''4'')]]
      (init_scraper (Some [[''old'']]))) =
     Some [[''a'', ''b''], [''1'', ''2''], [''3'', []]]"
proof -
  have g: "get_column_order [(''a'', ''1''), (''b'', ''2'')] = [''a'', ''b'']"
    by code_simp
  have i: "columns (init_scraper (Some [[''old'']])) = None
      \<and> \<not> csv_initialized (init_scraper (Some [[''old'']]))"
    by (simp add: init_scraper_def)
  show ?thesis
    using i save_player_to_csv_file [of "init_scraper (Some [[''old'']])"
        "[(''a'', ''1''), (''b'', ''2'')]" "[]" "[]" "[[(''a'', ''3'')], [(''c'', ''4'')]]"]
    unfolding g by (simp add: keys_def dict_get_def)
qed

text \<open>
  The claim as the specification states it, that a call leaves every row intact that was
  in the file before, fails for the first call of a run on a file that holds rows.
\<close>

theorem append_only_counterexample:
  "output_file (snd (save_player_to_csv [(''name'', ''Ronaldo'')]
      (init_scraper (Some [[''name''], [''Messi'']])))) =
     Some [[''name''], [''Ronaldo'']]
   \<and> \<not> prefix [[''name''], [''Messi'']] [[''name''], [''Ronaldo'']]"
proof -
  have g: "get_column_order [(''name'', ''Ronaldo'')] = [''name'']"
    by code_simp
  show ?thesis
    by (simp add: save_first init_scraper_def g dict_get_def)
qed

text \<open>
  C3. Order of the stop conditions. Every pass of the loop of \<open>_scrape_tab\<close> stops on a
  page without rows, whatever the limit of pages and the next link say; on a page with
  rows it stops at the limit of pages, whatever the next link says; and it stops for the
  missing next page only then. Otherwise it goes on with the page after the click. If
  three pages in a row let the loop go on and the fourth page has no rows, the loop
  returns on the fourth page, three clicks after its start, with the rows of the first
  three pages.
\<close>

theorem pagination_termination_precedence:
  "(td_rows (read_table_data (dom_of site s)) = [] \<longrightarrow>
      scrape_tab_loop site max_pages url tab_name s rws = Some (Stopped NoRows s rws))
   \<and> (td_rows (read_table_data (dom_of site s)) \<noteq> []
        \<and> max_pages_reached max_pages (current (read_page_info (dom_of site s))) \<longrightarrow>
      scrape_tab_loop site max_pages url tab_name s rws =
        Some (Stopped MaxPages s (rws @ page_rows site url tab_name s)))
   \<and> (td_rows (read_table_data (dom_of site s)) \<noteq> []
        \<and> \<not> max_pages_reached max_pages (current (read_page_info (dom_of site s)))
        \<and> \<not> hasNext (read_page_info (dom_of site s)) \<longrightarrow>
      scrape_tab_loop site max_pages url tab_name s rws =
        Some (Stopped NoNext s (rws @ page_rows site url tab_name s)))
   \<and> (continues site max_pages s \<longrightarrow>
      scrape_tab_loop site max_pages url tab_name s rws =
        scrape_tab_loop site max_pages url tab_name (click_next_link site s)
          (rws @ page_rows site url tab_name s))
   \<and> (continues site max_pages s
        \<and> continues site max_pages (click_next_link site s)
        \<and> continues site max_pages (click_next_link site (click_next_link site s))
        \<and> td_rows (read_table_data (dom_of site
             (click_next_link site (click_next_link site (click_next_link site s))))) = [] \<longrightarrow>
      scrape_tab_loop site max_pages url tab_name s rws =
        Some (Stopped NoRows (click_next_link site (click_next_link site (click_next_link site s)))
               (rws @ page_rows site url tab_name s
                    @ page_rows site url tab_name (click_next_link site s)
                    @ page_rows site url tab_name (click_next_link site (click_next_link site s)))))"
  by (simp add: loop_no_rows loop_max_pages loop_no_next loop_continues)

theorem pagination_termination_precedence_witness:
  "\<exists>rws. scrape_tab_loop four_pages None ''u'' ''summary'' 0 [] = Some (Stopped NoRows 3 rws)
     \<and> length rws = 3"
proof -
  have c: "continues four_pages None 0" "continues four_pages None (Suc 0)"
    "continues four_pages None (Suc (Suc 0))"
    by (simp_all add: continues_def four_pages_def read_table_data_def read_page_info_def
        max_pages_reached_def page_changed_def)
  have e: "td_rows (read_table_data (dom_of four_pages (Suc (Suc (Suc 0))))) = []"
    by (simp add: four_pages_def read_table_data_def)
  have n: "click_next_link four_pages = Suc"
    by (simp add: four_pages_def)
  have l: "length (page_rows four_pages ''u'' ''summary'' k) = (if k < 3 then 1 else 0)" for k
    by (simp add: page_rows_def four_pages_def read_table_data_def)
  have "scrape_tab_loop four_pages None ''u'' ''summary'' 0 [] =
      Some (Stopped NoRows (Suc (Suc (Suc 0)))
             ([] @ page_rows four_pages ''u'' ''summary'' 0
                 @ page_rows four_pages ''u'' ''summary'' (Suc 0)
                 @ page_rows four_pages ''u'' ''summary'' (Suc (Suc 0))))"
    using pagination_termination_precedence [of four_pages 0 None "''u''" "''summary''" "[]"] c e
    unfolding n by blast
  then show ?thesis
    by (simp add: l numeral_3_eq_3)
qed

text \<open>
  C4. Stall detection. After the click, \<open>_click_next\<close> reads the paging text again and
  raises Playwright's \<open>TimeoutError\<close> exactly when the text still shows the page number
  it was given; otherwise it returns. In the loop of \<open>_scrape_tab\<close>, a page that wants
  to go on and whose next page shows the same number makes the loop end with that
  error, after that one click: nothing catches the error and nothing tries the click
  again. Without a paging element, or with a paging text that does not match
  \<open>Page X / Y\<close>, nothing is raised; and on a site where every page has rows, an enabled
  next link and such a text, the loop never returns, unless the limit of pages stops it
  on page 1.
\<close>

theorem stall_detection:
  "(fst (click_next site s current_page) = Some PlaywrightTimeoutError \<longleftrightarrow>
      (\<exists>pg t. paging_el (dom_of site (press_next site s)) = Some pg
         \<and> page_text pg = Some (current_page, t)))
   \<and> (fst (click_next site s current_page) \<noteq> Some PlaywrightTimeoutError \<longrightarrow>
      fst (click_next site s current_page) = None)
   \<and> snd (click_next site s current_page) = press_next site s
   \<and> (td_rows (read_table_data (dom_of site s)) \<noteq> []
        \<and> \<not> max_pages_reached max_pages (current (read_page_info (dom_of site s)))
        \<and> hasNext (read_page_info (dom_of site s))
        \<and> paging_el (dom_of site (click_next_link site s)) = Some pg
        \<and> page_text pg = Some (current (read_page_info (dom_of site s)), t) \<longrightarrow>
      scrape_tab_loop site max_pages url tab_name s rws =
        Some (Raised PlaywrightTimeoutError (click_next_link site s)
               (rws @ page_rows site url tab_name s)))
   \<and> (paging_el (dom_of site (press_next site s)) = None
        \<or> (\<exists>pg'. paging_el (dom_of site (press_next site s)) = Some pg' \<and> page_text pg' = None) \<longrightarrow>
      click_next site s current_page = (None, press_next site s))
   \<and> ((\<forall>s'. td_rows (read_table_data (dom_of site s')) \<noteq> []
              \<and> hasNext (read_page_info (dom_of site s'))
              \<and> (\<exists>pg'. paging_el (dom_of site s') = Some pg' \<and> page_text pg' = None))
        \<and> \<not> max_pages_reached max_pages 1 \<longrightarrow>
      scrape_tab_loop site max_pages url tab_name s rws = None)"
proof -
  have "fst (click_next site s current_page) = Some PlaywrightTimeoutError \<longleftrightarrow>
      (\<exists>pg t. paging_el (dom_of site (press_next site s)) = Some pg
         \<and> page_text pg = Some (current_page, t))"
    using page_changed_iff [of "dom_of site (press_next site s)" current_page]
    unfolding click_next_def Let_def by auto
  moreover have "fst (click_next site s current_page) \<noteq> Some PlaywrightTimeoutError \<longrightarrow>
      fst (click_next site s current_page) = None"
    by (simp add: click_next_def Let_def)
  moreover have "snd (click_next site s current_page) = press_next site s"
    by (simp add: click_next_def Let_def)
  moreover have "td_rows (read_table_data (dom_of site s)) \<noteq> []
        \<and> \<not> max_pages_reached max_pages (current (read_page_info (dom_of site s)))
        \<and> hasNext (read_page_info (dom_of site s))
        \<and> paging_el (dom_of site (click_next_link site s)) = Some pg
        \<and> page_text pg = Some (current (read_page_info (dom_of site s)), t) \<longrightarrow>
      scrape_tab_loop site max_pages url tab_name s rws =
        Some (Raised PlaywrightTimeoutError (click_next_link site s)
               (rws @ page_rows site url tab_name s))"
    using page_changed_iff [of "dom_of site (click_next_link site s)"
        "current (read_page_info (dom_of site s))"]
    by (auto intro!: loop_stall)
  moreover have "paging_el (dom_of site (press_next site s)) = None
        \<or> (\<exists>pg'. paging_el (dom_of site (press_next site s)) = Some pg' \<and> page_text pg' = None) \<longrightarrow>
      click_next site s current_page = (None, press_next site s)"
    by (auto simp: click_next_def Let_def page_changed_def split: option.splits)
  moreover have "(\<forall>s'. td_rows (read_table_data (dom_of site s')) \<noteq> []
              \<and> hasNext (read_page_info (dom_of site s'))
              \<and> (\<exists>pg'. paging_el (dom_of site s') = Some pg' \<and> page_text pg' = None))
        \<and> \<not> max_pages_reached max_pages 1 \<longrightarrow>
      scrape_tab_loop site max_pages url tab_name s rws = None"
  proof
    assume a: "(\<forall>s'. td_rows (read_table_data (dom_of site s')) \<noteq> []
              \<and> hasNext (read_page_info (dom_of site s'))
              \<and> (\<exists>pg'. paging_el (dom_of site s') = Some pg' \<and> page_text pg' = None))
        \<and> \<not> max_pages_reached max_pages 1"
    have "continues site max_pages s'" for s'
      using a unmatched_continues [of site s' _ _ max_pages] by blast
    then show "scrape_tab_loop site max_pages url tab_name s rws = None"
      by (rule loop_never_returns)
  qed
  ultimately show ?thesis
    by blast
qed

theorem stall_detection_witness:
  "click_next stalled () 2 = (Some PlaywrightTimeoutError, ())
   \<and> (\<exists>rws. scrape_tab_loop stalled None ''u'' ''summary'' () [] =
         Some (Raised PlaywrightTimeoutError () rws))
   \<and> click_next four_pages 0 1 = (None, 1)
   \<and> click_next unparsed 0 1 = (None, 1)
   \<and> scrape_tab_loop unparsed None ''u'' ''summary'' 0 [] = None"
proof -
  have a: "td_rows (read_table_data (dom_of stalled ())) \<noteq> []
      \<and> \<not> max_pages_reached None (current (read_page_info (dom_of stalled ())))
      \<and> hasNext (read_page_info (dom_of stalled ()))
      \<and> paging_el (dom_of stalled (click_next_link stalled ())) =
          Some \<lparr>page_text = Some (2, 5), next_disabled = Some False\<rparr>
      \<and> page_text \<lparr>page_text = Some (2, 5), next_disabled = Some False\<rparr> =
          Some (current (read_page_info (dom_of stalled ())), 5)"
    by (simp add: stalled_def read_table_data_def read_page_info_def max_pages_reached_def one_row_def)
  have b: "paging_el (dom_of stalled (press_next stalled ())) =
            Some \<lparr>page_text = Some (2, 5), next_disabled = Some False\<rparr>"
    by (simp add: stalled_def)
  have c: "paging_el (dom_of four_pages (press_next four_pages 0)) =
            Some \<lparr>page_text = Some (2, 10), next_disabled = Some False\<rparr>
      \<and> press_next four_pages 0 = 1"
    by (simp add: four_pages_def press_next_def)
  have d: "(\<forall>s'. td_rows (read_table_data (dom_of unparsed s')) \<noteq> []
              \<and> hasNext (read_page_info (dom_of unparsed s'))
              \<and> (\<exists>pg'. paging_el (dom_of unparsed s') = Some pg' \<and> page_text pg' = None))
        \<and> \<not> max_pages_reached None 1"
    by (simp add: unparsed_def read_table_data_def read_page_info_def max_pages_reached_def)
  have e: "(\<exists>pg'. paging_el (dom_of unparsed (press_next unparsed 0)) = Some pg' \<and> page_text pg' = None)
      \<and> press_next unparsed 0 = 1"
    by (simp add: unparsed_def press_next_def)
  have 1: "click_next stalled () 2 = (Some PlaywrightTimeoutError, ())
      \<and> (\<exists>rws. scrape_tab_loop stalled None ''u'' ''summary'' () [] =
            Some (Raised PlaywrightTimeoutError () rws))"
    using a b
      stall_detection [of stalled "()" 2 None "\<lparr>page_text = Some (2, 5), next_disabled = Some False\<rparr>" 5
        "''u''" "''summary''" "[]"]
    by (auto simp: prod_eq_iff)
  have 2: "click_next four_pages 0 1 = (None, 1)"
    using c stall_detection [of four_pages 0 1 None]
    by (auto simp: prod_eq_iff)
  have 3: "click_next unparsed 0 1 = (None, 1)
      \<and> scrape_tab_loop unparsed None ''u'' ''summary'' 0 [] = None"
    using d e stall_detection [of unparsed 0 1 None _ _ "''u''" "''summary''" "[]"]
    by auto
  from 1 2 3 show ?thesis
    by simp
qed

theorem stall_counterexample:
  "scrape_tab stalled None ''u'' ''summary'' () [] =
     Some (Raised PlaywrightTimeoutError () (page_rows stalled ''u'' ''summary'' ()))
   \<and> current (read_page_info (dom_of unparsed 0)) = 1
   \<and> current (read_page_info (dom_of unparsed (click_next_link unparsed 0))) = 1
   \<and> click_next unparsed 0 1 = (None, 1)
   \<and> scrape_tab unparsed None ''u'' ''summary'' 0 [] = None"
proof -
  have "scrape_tab_loop stalled None ''u'' ''summary'' () [] =
      Some (Raised PlaywrightTimeoutError (click_next_link stalled ())
             ([] @ page_rows stalled ''u'' ''summary'' ()))"
    by (rule loop_stall)
       (simp_all add: stalled_def read_table_data_def read_page_info_def max_pages_reached_def
          page_changed_def one_row_def)
  then have 1: "scrape_tab stalled None ''u'' ''summary'' () [] =
      Some (Raised PlaywrightTimeoutError () (page_rows stalled ''u'' ''summary'' ()))"
    by (simp add: scrape_tab_def stalled_def)
  have "continues unparsed None s" for s
    by (simp add: continues_def unparsed_def read_table_data_def read_page_info_def
        max_pages_reached_def page_changed_def)
  then have "scrape_tab_loop unparsed None ''u'' ''summary'' 0 [] = None"
    by (rule loop_never_returns)
  then have 2: "scrape_tab unparsed None ''u'' ''summary'' 0 [] = None"
    by (simp add: scrape_tab_def unparsed_def)
  have 3: "current (read_page_info (dom_of unparsed 0)) = 1"
    "current (read_page_info (dom_of unparsed (click_next_link unparsed 0))) = 1"
    "click_next unparsed 0 1 = (None, 1)"
    by (simp_all add: unparsed_def read_page_info_def click_next_def press_next_def page_changed_def)
  from 1 2 3 show ?thesis
    by simp
qed

text \<open>
  C5. Backoff growth. The pause before retry number \<open>retries\<close> (from 1) is the float sum
  of \<open>2 * 2 ^ (retries - 1)\<close> and a jitter drawn from 1 to 5. The part without the
  jitter, 2, 4, 8 and so on, grows strictly. The jitter lies between 1 and 5 and the
  pause between \<open>2 ^ retries + 1\<close> and \<open>2 ^ retries + 5\<close>, for every retry number up to
  52 (the loops stop at 4 and at 2), and both ends are reached: the lower one for the
  sample 0, the upper one for the greatest sample \<open>1 - 2 ^ - 53\<close>, where the sum
  \<open>1 + 4 * u\<close> is rounded to 5. The base 2 and the bounds of the jitter are constants of
  the code.
\<close>

theorem backoff_delay_growth:
  "(0 < retries \<longrightarrow>
      backoff_base retries = 2 * 2 ^ (retries - 1)
      \<and> backoff_delay retries u =
          round_float (to_float (2 * 2 ^ (retries - 1)) + uniform 1 5 u))
   \<and> backoff_base retries < backoff_base (Suc retries)
   \<and> (0 \<le> u \<and> u < 1 \<longrightarrow> 1 \<le> uniform 1 5 u \<and> uniform 1 5 u \<le> 5)
   \<and> (retries \<le> 52 \<and> 0 \<le> u \<and> u < 1 \<longrightarrow>
      2 ^ retries + 1 \<le> backoff_delay retries u \<and> backoff_delay retries u \<le> 2 ^ retries + 5)
   \<and> uniform 1 5 0 = 1
   \<and> uniform 1 5 (1 - 1 / 2 ^ 53) = 5
   \<and> (retries \<le> 52 \<longrightarrow>
      backoff_delay retries 0 = 2 ^ retries + 1
      \<and> backoff_delay retries (1 - 1 / 2 ^ 53) = 2 ^ retries + 5)"
proof -
  have b: "0 < retries \<longrightarrow> backoff_base retries = 2 * 2 ^ (retries - 1)"
    by (cases retries) (simp_all add: backoff_base_def)
  then have d: "0 < retries \<longrightarrow> backoff_delay retries u =
      round_float (to_float (2 * 2 ^ (retries - 1)) + uniform 1 5 u)"
    by (simp add: backoff_delay_def)
  have i: "backoff_base retries < backoff_base (Suc retries)"
    by (simp add: backoff_base_def)
  have lo: "retries \<le> 52 \<longrightarrow> backoff_delay retries 0 = 2 ^ retries + 1"
    using backoff_delay_at [of retries 0 1] by (simp add: uniform_1_5_0)
  have u5: "uniform 1 5 (1 - 1 / 2 ^ 53) = of_int 5"
    using uniform_1_5_last by simp
  have hi: "retries \<le> 52 \<longrightarrow> backoff_delay retries (1 - 1 / 2 ^ 53) = 2 ^ retries + 5"
    using backoff_delay_at [of retries "1 - 1 / 2 ^ 53" 5, OF _ u5] by simp
  show ?thesis
    using b d i lo hi uniform_1_5_bounds [of u] backoff_delay_bounds [of retries u]
      uniform_1_5_0 uniform_1_5_last
    by blast
qed

theorem backoff_delay_growth_witness:
  "backoff_base 2 = 4 \<and> backoff_base 2 < backoff_base 3
   \<and> uniform 1 5 (1 / 2) = 3 \<and> backoff_delay 2 (1 / 2) = 7
   \<and> 2 ^ 2 + 1 \<le> backoff_delay 2 (1 / 2) \<and> backoff_delay 2 (1 / 2) \<le> 2 ^ 2 + 5
   \<and> backoff_delay 2 0 = 5 \<and> backoff_delay 2 (1 - 1 / 2 ^ 53) = 9"
proof -
  have h: "(0::nat) < 2" "(2::nat) \<le> 52" "(0::real) \<le> 1 / 2" "(1::real) / 2 < 1"
    by simp_all
  have e: "backoff_delay 2 (1 / 2) = 7"
    using backoff_delay_at [of 2 "1 / 2" 3] by (simp add: uniform_1_5_half)
  from backoff_delay_growth [of 2 "1 / 2"] h e uniform_1_5_half show ?thesis
    by simp
qed

theorem backoff_delay_counterexample:
  "backoff_delay 1 0 = 3 \<and> backoff_delay 2 0 = 5 \<and> backoff_delay 3 0 = 9
   \<and> \<not> (\<exists>u. 0 \<le> u \<and> backoff_delay 1 u = 2)"
proof -
  have a: "backoff_delay 1 0 = 3" "backoff_delay 2 0 = 5" "backoff_delay 3 0 = 9"
    using backoff_delay_at [of 1 0 1] backoff_delay_at [of 2 0 1] backoff_delay_at [of 3 0 1]
    by (simp_all add: uniform_1_5_0)
  have "backoff_delay 1 u \<noteq> 2" if "0 \<le> u" for u
    using backoff_delay_lower [of 1 u] that by simp
  with a show ?thesis
    by blast
qed

text \<open>
  C6. Persistence without duplicates. Whatever an earlier run left in the file,
  \<open>save_urls_to_csv\<close> replaces it by the header and one row for each URL collected in this
  run: the rows are pairwise different, every collected URL has its row, and the rows
  stand in the order in which the URLs first occurred.
\<close>

theorem save_urls_to_csv_dedup:
  "save_urls_to_csv urls2 (save_urls_to_csv urls1 file) =
     Some ([''player_url''] # map (\<lambda>url. [url]) (unique_urls_of urls2))
   \<and> distinct (map (\<lambda>url. [url]) (unique_urls_of urls2))
   \<and> distinct (unique_urls_of urls2)
   \<and> set (unique_urls_of urls2) = set urls2
   \<and> sorted_wrt (\<lambda>u v. first_index urls2 u < first_index urls2 v) (unique_urls_of urls2)"
proof -
  have d: "distinct (unique_urls_of urls2)"
    by (simp add: unique_urls_of_def unique_loop_distinct)
  have "inj_on (\<lambda>url. [url]) (set (unique_urls_of urls2))"
    by (simp add: inj_on_def)
  with d have "distinct (map (\<lambda>url. [url]) (unique_urls_of urls2))"
    by (simp add: distinct_map)
  moreover have "set (unique_urls_of urls2) = set urls2"
    by (simp add: unique_urls_of_def unique_loop_set)
  moreover have "sorted_wrt (\<lambda>u v. first_index urls2 u < first_index urls2 v) (unique_urls_of urls2)"
    unfolding unique_urls_of_def by (rule unique_loop_order)
  ultimately show ?thesis
    using d by (simp add: save_urls_to_csv_def)
qed

theorem save_urls_to_csv_dedup_witness:
  "save_urls_to_csv [''/player/1'', ''/player/2'', ''/player/1'']
     (save_urls_to_csv [''/player/1'', ''/player/2''] None) =
     Some [[''player_url''], [''/player/1''], [''/player/2'']]"
  using save_urls_to_csv_dedup [of "[''/player/1'', ''/player/2'', ''/player/1'']"
      "[''/player/1'', ''/player/2'']" None]
  by (simp add: unique_urls_of_def)

text \<open>
  C7. Header flattening and de-duplication. The levels \<open>("Standard", "Gls")\<close> flatten to
  \<open>Standard Gls\<close> and the flat header \<open>Age\<close> stays as it is, but a flat header does not
  always pass through unchanged: \<open>_flatten_headers\<close> strips it, so the flat header
  \<open>" Age"\<close> becomes \<open>Age\<close>.
\<close>

theorem flatten_headers_flat_stripped:
  "flatten_headers [Flat '' Age''] = [''Age'']
   \<and> flatten_headers [Levels [''Standard'', ''Gls''], Flat ''Age''] = [''Standard Gls'', ''Age'']"
  by code_simp

text \<open>
  The parts of C7 that hold on every input: levels that are not empty are stripped and
  joined with one space, a flat header without white space at its ends passes through
  unchanged, and the \<open>k\<close>-th occurrence of a header, for \<open>k\<close> from 2, gets the suffix
  \<open>_k\<close> while a first occurrence is kept.
\<close>

lemma flatten_column_flat_unchanged:
  assumes "c = [] \<or> (\<not> isspace (hd c) \<and> \<not> isspace (last c))"
  shows "flatten_column (Flat c) = c"
  using assms by (simp add: flatten_column_def strip_def strip_where_id)

lemma dedupe_headers_nth:
  assumes "i < length headers"
  shows "length (dedupe_headers headers) = length headers"
    and "dedupe_headers headers ! i =
      (if occurrence headers i = 1 then headers ! i
       else headers ! i @ ''_'' @ str_nat (occurrence headers i))"
  using assms by (simp_all add: dedupe_headers_map deduped_name_def)

lemma dedupe_headers_example:
  "dedupe_headers [''Gls'', ''Gls''] = [''Gls'', ''Gls_2'']"
  by code_simp

text \<open>
  C8. Retry exhaustion. In the player scraper, a URL whose every attempt fails is tried
  exactly 5 times, is reported as failed, and the loop goes on with the next URL: the
  run over the URLs is a total function. In the URL scraper, a page whose every
  \<open>page.goto\<close> raises is tried exactly 3 times; then \<open>has_next\<close> is \<open>False\<close> and the
  run returns with the scraper object as it was before the page: no further page is
  requested.
\<close>

theorem retry_exhaustion:
  "((\<forall>retries st1. \<not> fst (attempt br idx n url retries st1)) \<longrightarrow>
      fst (player_loop br idx n url 0 st) = False
      \<and> attempts (snd (snd (snd (player_loop br idx n url 0 st)))) = attempts (snd (snd st)) + 5
      \<and> scrape_urls br idx n (url # urls) st =
          scrape_urls br (idx + 1) n urls
            (case snd (player_loop br idx n url 0 st) of
               (self, w, out) \<Rightarrow> (self, w, out @ [FailedAfter 5])))
   \<and> ((\<forall>w. fst (goto br (page_url (fst ust)) w) \<noteq> None) \<longrightarrow>
      (\<exists>ust1. pages_loop br page_num True ust = Some ust1
         \<and> fst ust1 = fst ust
         \<and> attempts (snd (snd ust1)) = attempts (snd (snd ust)) + 3))"
proof -
  have "(\<forall>retries st1. \<not> fst (attempt br idx n url retries st1)) \<longrightarrow>
      fst (player_loop br idx n url 0 st) = False
      \<and> attempts (snd (snd (snd (player_loop br idx n url 0 st)))) = attempts (snd (snd st)) + 5
      \<and> scrape_urls br idx n (url # urls) st =
          scrape_urls br (idx + 1) n urls
            (case snd (player_loop br idx n url 0 st) of
               (self, w, out) \<Rightarrow> (self, w, out @ [FailedAfter 5]))"
    using player_loop_exhausts [of br idx n url 0 st] scrape_urls_skips [of br idx n url urls st]
    by (simp add: max_retries_def)
  moreover have "(\<forall>w. fst (goto br (page_url (fst ust)) w) \<noteq> None) \<longrightarrow>
      (\<exists>ust1. pages_loop br page_num True ust = Some ust1
         \<and> fst ust1 = fst ust
         \<and> attempts (snd (snd ust1)) = attempts (snd (snd ust)) + 3)"
    using pages_loop_stops [of br ust page_num]
      page_loop_exhausts [of br "page_url (fst ust)" page_num 0 True ust]
    by (simp add: url_max_retries_def)
  ultimately show ?thesis
    by blast
qed

theorem retry_exhaustion_witness:
  "attempts (snd (snd (scrape_urls down 1 2 [''a'', ''b''] (init_scraper None, (), [])))) = 10
   \<and> (\<exists>ust1. pages_loop down 1 True (list_scraper, (), []) = Some ust1
        \<and> fst ust1 = list_scraper \<and> attempts (snd (snd ust1)) = 3)"
proof -
  have f: "\<forall>retries st1. \<not> fst (attempt down idx n url retries st1)" for idx n url
    by (simp add: attempt_def down_def Let_def split: prod.splits)
  let ?u = "(list_scraper, (), []::msg list)"
  have g: "\<forall>w. fst (goto down (page_url (fst ?u)) w) \<noteq> None"
    by (simp add: down_def)
  let ?st = "(init_scraper None, (), [])"
  let ?st1 = "case snd (player_loop down 1 2 ''a'' 0 ?st) of
                (self, w, out) \<Rightarrow> (self, w, out @ [FailedAfter 5])"
  let ?st2 = "case snd (player_loop down (1 + 1) 2 ''b'' 0 ?st1) of
                (self, w, out) \<Rightarrow> (self, w, out @ [FailedAfter 5])"
  have x1: "attempts (snd (snd (snd (player_loop down 1 2 ''a'' 0 ?st)))) =
      attempts (snd (snd ?st)) + 5"
    and e1: "scrape_urls down 1 2 [''a'', ''b''] ?st = scrape_urls down (1 + 1) 2 [''b''] ?st1"
    using retry_exhaustion [of down 1 2 "''a''" ?st "[''b'']"] f [of 1 2 "''a''"] by blast+
  have x2: "attempts (snd (snd (snd (player_loop down (1 + 1) 2 ''b'' 0 ?st1)))) =
      attempts (snd (snd ?st1)) + 5"
    and e2: "scrape_urls down (1 + 1) 2 [''b''] ?st1 = scrape_urls down (1 + 1 + 1) 2 [] ?st2"
    using retry_exhaustion [of down "1 + 1" 2 "''b''" ?st1 "[]"] f [of "1 + 1" 2 "''b''"] by blast+
  have "scrape_urls down 1 2 [''a'', ''b''] ?st = ?st2"
    unfolding e1 e2 by (simp only: scrape_urls.simps)
  moreover have "attempts (snd (snd ?st2)) = 10"
    unfolding attempts_failed_after x2 x1 by simp
  moreover have "\<exists>ust1. pages_loop down 1 True ?u = Some ust1
        \<and> fst ust1 = fst ?u \<and> attempts (snd (snd ust1)) = attempts (snd (snd ?u)) + 3"
    using retry_exhaustion [of down 1 2 "''a''" ?st "[]" ?u 1] g by blast
  ultimately show ?thesis
    by simp
qed

text \<open>
  The claim as the specification states it, that the run goes on with the next target
  after a target has exhausted its retries, fails for the URL scraper: on a list of three
  pages whose second page cannot be loaded, the run ends after the three attempts at
  the second page and never requests the third, which would have loaded.
\<close>

theorem run_stops_counterexample:
  "scrape_all_player_urls flaky_list list_scraper [] =
     Some (list_scraper\<lparr>all_player_urls := [''/player/1''], offset := 60,
             urls_file := Some [[''player_url''], [''/player/1'']]\<rparr>,
           ''u'',
           [ScrapingPage 1 ''u'', ExtractedUrls 1, NextButton True, Saved 1,
            ScrapingPage 2 ''u&offset=60'', Error Exception,
            Retry 1 3, ScrapingPage 2 ''u&offset=60'', Error Exception,
            Retry 2 3, ScrapingPage 2 ''u&offset=60'', Error Exception, FailedAfter 3])
   \<and> fst (goto flaky_list ''u&offset=120'' ''u'') = None"
proof -
  let ?s1 = "list_scraper\<lparr>all_player_urls := [''/player/1''], offset := 60,
             urls_file := Some [[''player_url''], [''/player/1'']]\<rparr>"
  let ?o1 = "[ScrapingPage 1 ''u'', ExtractedUrls 1, NextButton True, Saved 1]"
  let ?o2 = "?o1 @ [ScrapingPage 2 ''u&offset=60'', Error Exception]"
  let ?o3 = "?o2 @ [Retry 1 3, ScrapingPage 2 ''u&offset=60'', Error Exception]"
  let ?o4 = "?o3 @ [Retry 2 3, ScrapingPage 2 ''u&offset=60'', Error Exception, FailedAfter 3]"
  have u0: "page_url list_scraper = ''u''"
    by (simp add: page_url_def list_scraper_def)
  have u1: "page_url ?s1 = ''u&offset=60''"
    by (simp add: page_url_def list_scraper_def str_nat_60)
  have a1: "page_attempt flaky_list ''u'' 1 0 True (list_scraper, [], []) =
      (True, True, 2, ?s1, ''u'', ?o1)"
    by (simp add: page_attempt_def extract_urls_def flaky_list_def list_scraper_def Let_def
        sofifa_challenge_detected_def save_urls_to_csv_def unique_urls_of_def)
  have a2: "page_attempt flaky_list ''u&offset=60'' 2 0 True (?s1, ''u'', ?o1) =
      (False, True, 2, ?s1, ''u'', ?o2)"
    by (simp add: page_attempt_def page_except_def flaky_list_def Let_def url_max_retries_def)
  have a3: "page_attempt flaky_list ''u&offset=60'' 2 1 True (?s1, ''u'', ?o2) =
      (False, True, 2, ?s1, ''u'', ?o3)"
    by (simp add: page_attempt_def page_except_def flaky_list_def Let_def url_max_retries_def)
  have a4: "page_attempt flaky_list ''u&offset=60'' 2 2 True (?s1, ''u'', ?o3) =
      (False, False, 2, ?s1, ''u'', ?o4)"
    by (simp add: page_attempt_def page_except_def flaky_list_def Let_def url_max_retries_def)
  have r: "(0::nat) < url_max_retries" "(1::nat) < url_max_retries" "(2::nat) < url_max_retries"
    "0 + 1 = (1::nat)" "1 + 1 = (2::nat)"
    by (simp_all add: url_max_retries_def)
  have l1: "page_loop flaky_list ''u'' 1 0 True (list_scraper, [], []) = (True, 2, ?s1, ''u'', ?o1)"
    by (subst page_loop.simps) (simp only: r if_True a1 prod.case bool.case)
  have l5: "page_loop flaky_list ''u&offset=60'' 2 (2 + 1) False (?s1, ''u'', ?o4) =
      (False, 2, ?s1, ''u'', ?o4)"
    by (subst page_loop.simps) (simp add: url_max_retries_def)
  have l4: "page_loop flaky_list ''u&offset=60'' 2 2 True (?s1, ''u'', ?o3) =
      (False, 2, ?s1, ''u'', ?o4)"
    by (subst page_loop.simps) (simp only: r if_True a4 prod.case bool.case l5)
  have l3: "page_loop flaky_list ''u&offset=60'' 2 1 True (?s1, ''u'', ?o2) =
      (False, 2, ?s1, ''u'', ?o4)"
    by (subst page_loop.simps) (simp only: r if_True a3 prod.case bool.case l4)
  have l2: "page_loop flaky_list ''u&offset=60'' 2 0 True (?s1, ''u'', ?o1) =
      (False, 2, ?s1, ''u'', ?o4)"
    by (subst page_loop.simps) (simp only: r if_True a2 prod.case bool.case l3)
  have p3: "pages_loop flaky_list 2 False (?s1, ''u'', ?o4) = Some (?s1, ''u'', ?o4)"
    by (subst pages_loop.simps) simp
  have p2: "pages_loop flaky_list 2 True (?s1, ''u'', ?o1) = Some (?s1, ''u'', ?o4)"
    by (subst pages_loop.simps) (simp only: fst_conv u1 l2 p3 if_True prod.case)
  have p1: "pages_loop flaky_list 1 True (list_scraper, [], []) = Some (?s1, ''u'', ?o4)"
    by (subst pages_loop.simps) (simp only: fst_conv u0 l1 p2 if_True prod.case)
  show ?thesis
    unfolding scrape_all_player_urls_def p1 by (simp add: flaky_list_def)
qed

section \<open>Claims\<close>



text \<open>
  C10. Header normalisation is idempotent. For every string \<open>s\<close>, normalising the
  normalised header gives it back; the output consists of characters of \<open>[a-z0-9_]\<close>,
  has no two underscores in a row and none at either end, and every string of that
  shape is a fixed point.
\<close>

theorem normalize_header_idempotent:
  "normalize_header (normalize_header s) = normalize_header s
   \<and> nf (normalize_header s)
   \<and> (nf t \<longrightarrow> normalize_header t = t)"
  using nf_fixed [of t] nf_fixed [OF nf_normalize_header [of s]] nf_normalize_header [of s]
  by blast

theorem normalize_header_idempotent_witness:
  "normalize_header '' Aerial Won %/90 '' = ''aerial_won_90''
   \<and> normalize_header ''aerial_won_90'' = ''aerial_won_90''
   \<and> nf ''aerial_won_90''"
proof -
  have e: "normalize_header '' Aerial Won %/90 '' = ''aerial_won_90''"
    by code_simp
  show ?thesis
    using normalize_header_idempotent [of "'' Aerial Won %/90 ''" "''aerial_won_90''"]
    unfolding e by blast
qed

end
